theory Spec2Isabelle
  imports Complex_Main
begin

section \<open>Numbers, faults and the outside world\<close>

text \<open>
  The program is \<^verbatim>\<open>terminal_weather.c\<close>. Its \<^verbatim>\<open>int\<close> values (screen sizes, segment
  coordinates, counters) are modelled as \<open>int\<close>: they stay far below the 32-bit range.
  Its \<^verbatim>\<open>double\<close> values (timestamps, raindrop rows, speeds) are modelled as \<open>real\<close>, so
  the rounding of floating-point arithmetic is not part of the model.
  C division and remainder truncate towards zero; a remainder by zero is a fault.
  Storage management (\<^verbatim>\<open>realloc\<close>, capacities) is not modelled: an array with its element
  count is a list. Each \<^verbatim>\<open>free\<close> of a bolt's segment array is recorded in the trace.
\<close>

datatype fault = DivByZero | OutOfBounds

definition c_div :: "int \<Rightarrow> int \<Rightarrow> int" where
  "c_div a b = (if (a < 0) = (b < 0) then \<bar>a\<bar> div \<bar>b\<bar> else - (\<bar>a\<bar> div \<bar>b\<bar>))"

definition c_mod :: "int \<Rightarrow> int \<Rightarrow> int" where
  "c_mod a b = a - b * c_div a b"

definition c_mod_chk :: "int \<Rightarrow> int \<Rightarrow> fault + int" where
  "c_mod_chk a b = (if b = 0 then Inl DivByZero else Inr (c_mod a b))"

text \<open>The cast \<^verbatim>\<open>(int)d\<close> of a double: truncation towards zero.\<close>

definition int_of_double :: "real \<Rightarrow> int" where
  "int_of_double d = (if 0 \<le> d then \<lfloor>d\<rfloor> else \<lceil>d\<rceil>)"

definition UPDATE_INTERVAL :: real where "UPDATE_INTERVAL = 0.015"
definition LIGHTNING_CHARS :: string where "LIGHTNING_CHARS = ''*+#''"
definition LIGHTNING_GROWTH_DELAY :: real where "LIGHTNING_GROWTH_DELAY = 0.002"
definition LIGHTNING_MAX_BRANCHES :: int where "LIGHTNING_MAX_BRANCHES = 2"
definition LIGHTNING_BRANCH_CHANCE :: real where "LIGHTNING_BRANCH_CHANCE = 0.3"
definition FORK_CHANCE :: real where "FORK_CHANCE = 0.15"
definition FORK_HORIZONTAL_SPREAD :: int where "FORK_HORIZONTAL_SPREAD = 3"
definition SEGMENT_LIFESPAN :: real where "SEGMENT_LIFESPAN = 0.8"
definition LIGHTNING_CHANCE :: real where "LIGHTNING_CHANCE = 0.005"

text \<open>\<^verbatim>\<open>RAND_MAX\<close> of the C library (the glibc value).\<close>

definition RAND_MAX :: real where "RAND_MAX = 2147483647"

record raindrop =
  drop_x :: int
  drop_y :: real
  speed :: real
  glyph :: char

record segment =
  seg_y :: int
  seg_x :: int
  birth :: real

text \<open>
  A \<^verbatim>\<open>Bolt\<close>. \<open>segs\<close> holds the \<^verbatim>\<open>seg_count\<close> valid entries of the segment array.
  \<open>trunk\<close> is a ghost field, absent from the source: it counts the segments pushed by
  iteration \<^verbatim>\<open>i == 0\<close> of the branch loop, the one the source calls primary.
\<close>

record bolt =
  target_len :: int
  growing :: bool
  last_growth :: real
  max_y :: int
  max_x :: int
  segs :: "segment list"
  trunk :: nat

definition seg_count :: "bolt \<Rightarrow> int" where
  "seg_count b = int (length (segs b))"

text \<open>A \<^verbatim>\<open>chtype\<close> attribute: a colour pair with the bold and dim bits.\<close>

record attr =
  color_pair :: nat
  bold :: bool
  dim :: bool

datatype event =
    Stderr string
  | Initscr | Cbreak | Noecho | Keypad | Nodelay | Timeout int | CursSet int | Signal
  | StartColor | UseDefaultColors | InitPair nat
  | Endwin | Refresh | Clear | Erase | Doupdate
  | Mvaddch int int char attr
  | Nanosleep int int
  | Free "segment list"
  | FreeVecs

text \<open>
  The world outside the program: the monotonic clock, the random number generator, the
  keyboard and the terminal size are sequences read one element at a time; every call of
  the library that acts on the terminal, sleeps or frees storage is appended to \<open>trace\<close>.
\<close>

record world =
  clock :: "nat \<Rightarrow> real"
  ticks :: nat
  rand_src :: "nat \<Rightarrow> nat"
  rand_used :: nat
  key_src :: "nat \<Rightarrow> int"
  key_used :: nat
  size_src :: "nat \<Rightarrow> int \<times> int"
  size_used :: nat
  trace :: "event list"

definition now_sec :: "world \<Rightarrow> real \<times> world" where
  "now_sec w = (clock w (ticks w), w\<lparr>ticks := Suc (ticks w)\<rparr>)"

definition rand :: "world \<Rightarrow> int \<times> world" where
  "rand w = (int (rand_src w (rand_used w)), w\<lparr>rand_used := Suc (rand_used w)\<rparr>)"

definition getch :: "world \<Rightarrow> int \<times> world" where
  "getch w = (key_src w (key_used w), w\<lparr>key_used := Suc (key_used w)\<rparr>)"

definition getmaxyx :: "world \<Rightarrow> (int \<times> int) \<times> world" where
  "getmaxyx w = (size_src w (size_used w), w\<lparr>size_used := Suc (size_used w)\<rparr>)"

definition emit :: "event \<Rightarrow> world \<Rightarrow> world" where
  "emit e w = w\<lparr>trace := trace w @ [e]\<rparr>"

definition sleep_sec :: "real \<Rightarrow> world \<Rightarrow> world" where
  "sleep_sec s w =
     (if s \<le> 0 then w
      else let tv_sec = int_of_double s;
               tv_nsec = int_of_double ((s - real_of_int tv_sec) * 1000000000)
           in emit (Nanosleep tv_sec tv_nsec) w)"

section \<open>Lightning bolts\<close>

definition seg_push :: "bolt \<Rightarrow> segment \<Rightarrow> bolt" where
  "seg_push b s = b\<lparr>segs := segs b @ [s]\<rparr>"

definition min_len :: "int \<Rightarrow> int" where
  "min_len my = (let m = c_div my 2 in if m < 2 then 2 else m)"

definition max_len :: "int \<Rightarrow> int" where
  "max_len my = (let m = my - 2 in if m < min_len my then min_len my + 1 else m)"

definition bolt_create :: "int \<Rightarrow> int \<Rightarrow> int \<Rightarrow> int \<Rightarrow> world \<Rightarrow> bolt \<times> world" where
  "bolt_create start_row start_col my mx w =
     (let (r, w1) = rand w;
          tl = c_mod r (max_len my - min_len my + 1) + min_len my;
          (t1, w2) = now_sec w1;
          b = \<lparr>target_len = tl, growing = True, last_growth = t1, max_y = my, max_x = mx,
               segs = [], trunk = 0\<rparr>;
          (t2, w3) = now_sec w2
      in (seg_push b \<lparr>seg_y = start_row, seg_x = start_col, birth = t2\<rparr>, w3))"

text \<open>
  The branch loop \<^verbatim>\<open>for (i = 0; i < branches; ++i)\<close> of \<^verbatim>\<open>bolt_update\<close>. It carries
  \<^verbatim>\<open>current_x\<close>, \<^verbatim>\<open>primary_next_x\<close> and \<^verbatim>\<open>added\<close>.
\<close>

function branch_loop ::
  "int \<Rightarrow> int \<Rightarrow> segment \<Rightarrow> real \<Rightarrow> int \<Rightarrow> int \<Rightarrow> bool \<Rightarrow> bolt \<Rightarrow> world
     \<Rightarrow> int \<times> bool \<times> bolt \<times> world" where
  "branch_loop i branches lst t current_x primary_next_x added b w =
     (if i < branches then
        (let rw = rand w;
             offset = c_mod (fst rw) 5 - 2;
             nx0 = current_x + offset;
             nx1 = (if nx0 < 0 then 0 else nx0);
             nx = (if nx1 \<ge> max_x b then max_x b - 1 else nx1);
             ny0 = seg_y lst + 1;
             ny = (if ny0 \<ge> max_y b then max_y b - 1 else ny0);
             b1 = seg_push b \<lparr>seg_y = ny, seg_x = nx, birth = t\<rparr>;
             b2 = (if i = 0 then b1\<lparr>trunk := Suc (trunk b1)\<rparr> else b1);
             p = (if i = 0 then nx else primary_next_x)
         in branch_loop (i + 1) branches lst t nx p True b2 (snd rw))
      else (primary_next_x, added, b, w))"
  by pat_completeness auto
termination
  by (relation "measure (\<lambda>(i, branches, _). nat (branches - i))") auto

declare branch_loop.simps [simp del]

text \<open>The fork of \<^verbatim>\<open>bolt_update\<close>: one side segment, unless it falls on the primary column.\<close>

definition fork_step ::
  "segment \<Rightarrow> real \<Rightarrow> int \<Rightarrow> bool \<Rightarrow> bolt \<Rightarrow> world \<Rightarrow> bool \<times> bolt \<times> world" where
  "fork_step lst t primary_next_x added b w =
     (let (r3, w1) = rand w in
      if real_of_int r3 / RAND_MAX < FORK_CHANCE then
        (let (r4, w2) = rand w1;
             off0 = c_mod r4 (2 * FORK_HORIZONTAL_SPREAD + 1) - FORK_HORIZONTAL_SPREAD;
             (off, w3) = (if off0 = 0
                          then (let (r5, w3) = rand w2
                                in ((if c_mod r5 2 \<noteq> 0 then - 1 else 1), w3))
                          else (off0, w2));
             fx0 = seg_x lst + off;
             fx1 = (if fx0 < 0 then 0 else fx0);
             fx = (if fx1 \<ge> max_x b then max_x b - 1 else fx1);
             fy0 = seg_y lst + 1;
             fy = (if fy0 \<ge> max_y b then max_y b - 1 else fy0)
         in if fx \<noteq> primary_next_x
            then (True, seg_push b \<lparr>seg_y = fy, seg_x = fx, birth = t\<rparr>, w3)
            else (added, b, w3))
      else (added, b, w1))"

text \<open>
  The growth block of \<^verbatim>\<open>bolt_update\<close>, entered when the bolt is growing and the growth
  delay has passed. Reading \<^verbatim>\<open>segs[seg_count - 1]\<close> of an empty array is a fault.
\<close>

definition bolt_grow :: "real \<Rightarrow> bolt \<Rightarrow> world \<Rightarrow> fault + bolt \<times> world" where
  "bolt_grow t b w =
     (if segs b = [] then Inl OutOfBounds
      else
        (let b0 = b\<lparr>last_growth := t\<rparr>;
             lst = last (segs b0);
             (added, b3, w3) =
               (if seg_count b0 < target_len b0 \<and> seg_y lst < max_y b0 - 1 then
                  (let (r1, w1) = rand w;
                       (branches, w2) =
                         (if real_of_int r1 / RAND_MAX < LIGHTNING_BRANCH_CHANCE
                          then (let (r2, w2) = rand w1
                                in (c_mod r2 (LIGHTNING_MAX_BRANCHES + 1) + 1, w2))
                          else (1, w1));
                       (p, added1, b1, w3) =
                         branch_loop 0 branches lst t (seg_x lst) (seg_x lst) False b0 w2
                   in fork_step lst t p added1 b1 w3)
                else (False, b0, w))
         in Inr ((if \<not> added \<or> seg_count b3 \<ge> target_len b3 \<or> seg_y lst \<ge> max_y b3 - 1
                  then b3\<lparr>growing := False\<rparr> else b3), w3)))"

text \<open>The liveness loop: the clock is read once for every segment looked at.\<close>

fun any_alive :: "segment list \<Rightarrow> world \<Rightarrow> bool \<times> world" where
  "any_alive [] w = (False, w)"
| "any_alive (s # ss) w =
     (let (t, w1) = now_sec w
      in if t - birth s \<le> SEGMENT_LIFESPAN then (True, w1) else any_alive ss w1)"

definition bolt_update :: "bolt \<Rightarrow> world \<Rightarrow> fault + bool \<times> bolt \<times> world" where
  "bolt_update b w =
     (let (t, w0) = now_sec w
      in case (if growing b \<and> t - last_growth b \<ge> LIGHTNING_GROWTH_DELAY
               then bolt_grow t b w0 else Inr (b, w0)) of
           Inl e \<Rightarrow> Inl e
         | Inr (b1, w1) \<Rightarrow> (let (alive, w2) = any_alive (segs b1) w1 in Inr (alive, b1, w2)))"

text \<open>One iteration of the drawing loop of \<^verbatim>\<open>bolt_draw\<close>, and the loop.\<close>

definition draw_segment :: "real \<Rightarrow> attr \<Rightarrow> int \<Rightarrow> int \<Rightarrow> segment \<Rightarrow> world \<Rightarrow> world" where
  "draw_segment t l_attr rows cols s w =
     (let age = t - birth s in
      if age > SEGMENT_LIFESPAN then w
      else
        (let max_idx = (2 :: int);
             norm = age / SEGMENT_LIFESPAN;
             idx0 = (if norm < 0.33 then 2 else if norm < 0.66 then 1 else 0);
             idx1 = (if idx0 < 0 then 0 else idx0);
             char_idx = (if idx1 > max_idx then max_idx else idx1)
         in if seg_y s \<ge> 0 \<and> seg_y s < rows \<and> seg_x s \<ge> 0 \<and> seg_x s < cols
            then emit (Mvaddch (seg_y s) (seg_x s) (LIGHTNING_CHARS ! nat char_idx) l_attr) w
            else w))"

definition bolt_draw :: "bolt \<Rightarrow> attr \<Rightarrow> int \<Rightarrow> int \<Rightarrow> world \<Rightarrow> world" where
  "bolt_draw b l_attr rows cols w =
     (let (t, w1) = now_sec w in fold (draw_segment t l_attr rows cols) (segs b) w1)"

section \<open>The simulation state and the frame loop\<close>

text \<open>
  The variables of \<^verbatim>\<open>main\<close> that live across frames, with the globals \<^verbatim>\<open>g_rows\<close>,
  \<^verbatim>\<open>g_cols\<close> and \<^verbatim>\<open>g_resized\<close>. \<open>last_t\<close> is the variable \<^verbatim>\<open>last\<close>.
\<close>

record sim =
  g_rows :: int
  g_cols :: int
  g_resized :: bool
  thunder :: bool
  last_t :: real
  rain :: "raindrop list"
  bolts :: "bolt list"
  rain_attr :: attr
  light_attr :: attr

definition on_winch :: "sim \<Rightarrow> sim" where
  "on_winch st = st\<lparr>g_resized := True\<rparr>"

text \<open>The resize block at the top of the loop body.\<close>

definition handle_resize :: "sim \<Rightarrow> world \<Rightarrow> sim \<times> world" where
  "handle_resize st w =
     (if g_resized st then
        (let w1 = emit Refresh (emit Endwin w);
             (rc, w2) = getmaxyx w1;
             w3 = emit Clear w2;
             w4 = fold (\<lambda>b. emit (Free (segs b))) (bolts st) w3
         in (st\<lparr>g_resized := False, g_rows := fst rc, g_cols := snd rc,
                 rain := [], bolts := []\<rparr>, w4))
      else (st, w))"

text \<open>The keys: \<^verbatim>\<open>'q'\<close> is 113, \<^verbatim>\<open>'Q'\<close> is 81, ESC is 27, \<^verbatim>\<open>'t'\<close> is 116, \<^verbatim>\<open>'T'\<close> is 84.\<close>

definition is_quit :: "int \<Rightarrow> bool" where
  "is_quit c = (c = 113 \<or> c = 81 \<or> c = 27)"

definition handle_toggle :: "int \<Rightarrow> sim \<Rightarrow> world \<Rightarrow> sim \<times> world" where
  "handle_toggle c st w =
     (if c = 116 \<or> c = 84 then (st\<lparr>thunder := \<not> thunder st\<rparr>, emit Clear w) else (st, w))"

definition pace :: "sim \<Rightarrow> world \<Rightarrow> sim \<times> world" where
  "pace st w =
     (let (now, w1) = now_sec w;
          dt = now - last_t st;
          w2 = (if dt < UPDATE_INTERVAL then sleep_sec (UPDATE_INTERVAL - dt) w1 else w1);
          (l, w3) = now_sec w2
      in (st\<lparr>last_t := l\<rparr>, w3))"

text \<open>
  The spawn block. The conjunction short-circuits: \<^verbatim>\<open>rand\<close> is called only in
  thunderstorm mode with fewer than three bolts.
\<close>

definition spawn_bolt :: "sim \<Rightarrow> world \<Rightarrow> fault + sim \<times> world" where
  "spawn_bolt st w =
     (if thunder st \<and> int (length (bolts st)) < 3 then
        (let (r0, w0) = rand w in
         if real_of_int r0 / RAND_MAX < LIGHTNING_CHANCE then
           (let (r1, w1) = rand w0 in
            case c_mod_chk r1 (c_div (g_cols st) 2) of
              Inl e \<Rightarrow> Inl e
            | Inr m1 \<Rightarrow>
                (let start_col = c_div (g_cols st) 4 + m1;
                     (r2, w2) = rand w1
                 in case c_mod_chk r2 (if g_rows st > 5 then c_div (g_rows st) 5 else g_rows st) of
                      Inl e \<Rightarrow> Inl e
                    | Inr start_row \<Rightarrow>
                        (let (b, w3) = bolt_create start_row start_col (g_rows st) (g_cols st) w2
                         in Inr (st\<lparr>bolts := bolts st @ [b]\<rparr>, w3))))
         else Inr (st, w0))
      else Inr (st, w))"

text \<open>
  The compaction loop over the bolt array, in place: \<open>i\<close> is the read index, \<open>wi\<close> the
  write index \<^verbatim>\<open>w\<close>, \<open>v\<close> the array. A bolt that is not alive has its segments freed.
\<close>

function bolts_loop :: "nat \<Rightarrow> nat \<Rightarrow> bolt list \<Rightarrow> world \<Rightarrow> fault + nat \<times> bolt list \<times> world" where
  "bolts_loop i wi v w =
     (if i < length v then
        (case bolt_update (v ! i) w of
           Inl e \<Rightarrow> Inl e
         | Inr r \<Rightarrow>
             (let v1 = v[i := fst (snd r)]
              in if fst r then bolts_loop (Suc i) (Suc wi) (v1[wi := v1 ! i]) (snd (snd r))
                 else bolts_loop (Suc i) wi v1 (emit (Free (segs (v1 ! i))) (snd (snd r)))))
      else Inr (wi, v, w))"
  by pat_completeness auto
termination
  by (relation "measure (\<lambda>(i, wi, v, w). length v - i)") auto

declare bolts_loop.simps [simp del]

definition update_bolts :: "sim \<Rightarrow> world \<Rightarrow> fault + sim \<times> world" where
  "update_bolts st w =
     (case bolts_loop 0 0 (bolts st) w of
        Inl e \<Rightarrow> Inl e
      | Inr r \<Rightarrow> Inr (st\<lparr>bolts := take (fst r) (fst (snd r))\<rparr>, snd (snd r)))"

text \<open>The raindrop spawn loop \<^verbatim>\<open>for (i = 0; i < n_new; ++i)\<close> and the block around it.\<close>

function rain_spawn_loop ::
  "int \<Rightarrow> int \<Rightarrow> real \<Rightarrow> real \<Rightarrow> int \<Rightarrow> raindrop list \<Rightarrow> world \<Rightarrow> raindrop list \<times> world" where
  "rain_spawn_loop i n_new min_speed max_speed cols rv w =
     (if i < n_new then
        (let rw1 = rand w;
             dx = c_mod (fst rw1) (if cols > 1 then cols else 1);
             rw2 = rand (snd rw1);
             sp = min_speed + real_of_int (fst rw2) / RAND_MAX * (max_speed - min_speed);
             rw3 = rand (snd rw2);
             c = ''|.`'' ! nat (c_mod (fst rw3) 3)
         in rain_spawn_loop (i + 1) n_new min_speed max_speed cols
              (rv @ [\<lparr>drop_x = dx, drop_y = 0, speed = sp, glyph = c\<rparr>]) (snd rw3))
      else (rv, w))"
  by pat_completeness auto
termination
  by (relation "measure (\<lambda>(i, n_new, _). nat (n_new - i))") auto

declare rain_spawn_loop.simps [simp del]

definition spawn_rain :: "sim \<Rightarrow> world \<Rightarrow> sim \<times> world" where
  "spawn_rain st w =
     (let gen_chance = (if thunder st then 0.5 else 0.3);
          max_new = (if thunder st then c_div (g_cols st) 8 else c_div (g_cols st) 15);
          min_speed = 0.3;
          max_speed = (if thunder st then 1.0 else 0.6);
          (r0, w0) = rand w
      in if real_of_int r0 / RAND_MAX < gen_chance then
           (let (m, w1) = (if max_new > 1
                           then (let (r1, w1) = rand w0 in (c_mod r1 max_new, w1))
                           else (0, w0));
                n_new = 1 + m;
                (rv, w2) = rain_spawn_loop 0 n_new min_speed max_speed (g_cols st) (rain st) w1
            in (st\<lparr>rain := rv\<rparr>, w2))
         else (st, w0))"

text \<open>
  The advance-and-retire loop over the raindrop array, in place: \<open>i\<close> is the read index,
  \<open>rw\<close> the write index, \<open>v\<close> the array.
\<close>

function rain_loop :: "nat \<Rightarrow> nat \<Rightarrow> raindrop list \<Rightarrow> int \<Rightarrow> nat \<times> raindrop list" where
  "rain_loop i rw v rows =
     (if i < length v then
        (let v1 = v[i := (v ! i)\<lparr>drop_y := drop_y (v ! i) + speed (v ! i)\<rparr>]
         in if int_of_double (drop_y (v1 ! i)) < rows
            then rain_loop (Suc i) (Suc rw) (v1[rw := v1 ! i]) rows
            else rain_loop (Suc i) rw v1 rows)
      else (rw, v))"
  by pat_completeness auto
termination
  by (relation "measure (\<lambda>(i, rw, v, rows). length v - i)") auto

declare rain_loop.simps [simp del]

definition advance_rain :: "sim \<Rightarrow> sim" where
  "advance_rain st =
     (let (rw, v) = rain_loop 0 0 (rain st) (g_rows st) in st\<lparr>rain := take rw v\<rparr>)"

text \<open>Drawing: the bolts, then the raindrops, between \<^verbatim>\<open>erase\<close> and \<^verbatim>\<open>refresh\<close>.\<close>

definition draw_drop :: "sim \<Rightarrow> raindrop \<Rightarrow> world \<Rightarrow> world" where
  "draw_drop st d w =
     (let y = int_of_double (drop_y d) in
      if y \<ge> 0 \<and> y < g_rows st \<and> drop_x d \<ge> 0 \<and> drop_x d < g_cols st then
        (let a = rain_attr st;
             a' = (if thunder st then a\<lparr>bold := True\<rparr>
                   else if speed d < 0.8 then a\<lparr>dim := True\<rparr> else a)
         in emit (Mvaddch y (drop_x d) (glyph d) a') w)
      else w)"

definition render :: "sim \<Rightarrow> world \<Rightarrow> world" where
  "render st w =
     (let w1 = emit Erase w;
          w2 = fold (\<lambda>b. bolt_draw b (light_attr st) (g_rows st) (g_cols st)) (bolts st) w1;
          w3 = fold (draw_drop st) (rain st) w2
      in emit Refresh (emit Doupdate w3))"

text \<open>
  One iteration of \<^verbatim>\<open>while (1)\<close>. The boolean of the result is \<open>True\<close> when the
  iteration left the loop by \<^verbatim>\<open>break\<close>.
\<close>

definition frame :: "sim \<Rightarrow> world \<Rightarrow> fault + bool \<times> sim \<times> world" where
  "frame st w =
     (let (st1, w1) = handle_resize st w;
          (c, w2) = getch w1
      in if is_quit c then Inr (True, st1, w2)
         else
           (let (st2, w3) = handle_toggle c st1 w2;
                (st3, w4) = pace st2 w3
            in case spawn_bolt st3 w4 of
                 Inl e \<Rightarrow> Inl e
               | Inr (st4, w5) \<Rightarrow>
                   (case update_bolts st4 w5 of
                      Inl e \<Rightarrow> Inl e
                    | Inr (st5, w6) \<Rightarrow>
                        (let (st6, w7) = spawn_rain st5 w6;
                             st7 = advance_rain st6
                         in Inr (False, st7, render st7 w7)))))"

section \<open>The program\<close>

text \<open>
  What \<^verbatim>\<open>main\<close> finds when it starts: whether standard output is a terminal, the value of
  \<^verbatim>\<open>TERM\<close>, whether the terminal database of the curses library has an entry for that
  value, whether the terminal has colours, and at which frames the resize signal has
  arrived since the frame before. Option parsing and colour names are not modelled, and
  neither is \<^verbatim>\<open>srand\<close>: the random numbers of the world are any sequence.
\<close>

record env =
  isatty_stdout :: bool
  term_var :: "string option"
  term_known :: bool
  has_colors :: bool
  winch :: "nat \<Rightarrow> bool"

definition A_NORMAL :: attr where
  "A_NORMAL = \<lparr>color_pair = 0, bold = False, dim = False\<rparr>"

definition CP_RAIN_NORMAL :: nat where "CP_RAIN_NORMAL = 1"
definition CP_LIGHTNING :: nat where "CP_LIGHTNING = 4"

definition setup_colors :: "bool \<Rightarrow> world \<Rightarrow> (attr \<times> attr) \<times> world" where
  "setup_colors colors w =
     (if \<not> colors then ((A_NORMAL, A_NORMAL\<lparr>bold := True\<rparr>), w)
      else
        (let w1 = emit UseDefaultColors (emit StartColor w);
             w2 = emit (InitPair CP_LIGHTNING) (emit (InitPair CP_RAIN_NORMAL) w1)
         in ((A_NORMAL\<lparr>color_pair := CP_RAIN_NORMAL\<rparr>,
              A_NORMAL\<lparr>color_pair := CP_LIGHTNING, bold := True\<rparr>), w2)))"

definition tty_missing :: "env \<Rightarrow> bool" where
  "tty_missing e = (\<not> isatty_stdout e \<or> term_var e = None \<or> term_var e = Some ''dumb'')"

definition tty_message :: string where
  "tty_message = ''Error: This program requires a real TTY.'' @ [CHR 0x0A]"

text \<open>
  \<^verbatim>\<open>initscr\<close> of the curses library does not return when it cannot open the terminal
  named by \<^verbatim>\<open>TERM\<close>: it writes this line to standard error and ends the process with
  status 1. \<open>startup\<close> is the initialisation of \<^verbatim>\<open>main\<close> from \<^verbatim>\<open>initscr\<close> to the first
  reading of the clock when \<^verbatim>\<open>initscr\<close> returns; \<open>main\<close> below takes the other case.
\<close>

definition initscr_message :: "env \<Rightarrow> string" where
  "initscr_message e =
     ''Error opening terminal: '' @ (case term_var e of None \<Rightarrow> ''unknown'' | Some t \<Rightarrow> t)
       @ ''.'' @ [CHR 0x0A]"

definition startup :: "env \<Rightarrow> world \<Rightarrow> sim \<times> world" where
  "startup e w =
     (let w1 = fold emit [Initscr, Cbreak, Noecho, Keypad, Nodelay, Timeout 1, CursSet 0, Signal] w;
          (rc, w2) = getmaxyx w1;
          (ats, w3) = setup_colors (has_colors e) w2;
          (l, w4) = now_sec w3
      in (\<lparr>g_rows = fst rc, g_cols = snd rc, g_resized = False, thunder = False, last_t = l,
            rain = [], bolts = [], rain_attr = fst ats, light_attr = snd ats\<rparr>, w4))"

text \<open>
  The loop \<^verbatim>\<open>while (1)\<close> with fuel: \<open>None\<close> when the fuel runs out before the loop is
  left. \<open>k\<close> is the number of the frame.
\<close>

fun main_loop :: "nat \<Rightarrow> env \<Rightarrow> nat \<Rightarrow> sim \<Rightarrow> world \<Rightarrow> (fault + sim \<times> world) option" where
  "main_loop 0 e k st w = None"
| "main_loop (Suc fuel) e k st w =
     (case frame (if winch e k then on_winch st else st) w of
        Inl f \<Rightarrow> Some (Inl f)
      | Inr (quit, st', w') \<Rightarrow>
          if quit then Some (Inr (st', w')) else main_loop fuel e (Suc k) st' w')"

definition shutdown :: "sim \<Rightarrow> world \<Rightarrow> world" where
  "shutdown st w = emit Endwin (emit FreeVecs (fold (\<lambda>b. emit (Free (segs b))) (bolts st) w))"

text \<open>\<^verbatim>\<open>main\<close>: the exit status and the world at exit, or a fault.\<close>

definition main :: "nat \<Rightarrow> env \<Rightarrow> world \<Rightarrow> (fault + int \<times> world) option" where
  "main fuel e w =
     (if tty_missing e then Some (Inr (1, emit (Stderr tty_message) w))
      else if \<not> term_known e then Some (Inr (1, emit (Stderr (initscr_message e)) w))
      else
        (let (st, w1) = startup e w
         in case main_loop fuel e 0 st w1 of
              None \<Rightarrow> None
            | Some (Inl f) \<Rightarrow> Some (Inl f)
            | Some (Inr (st', w')) \<Rightarrow> Some (Inr (0, shutdown st' w'))))"

section \<open>Definitions for stating the properties\<close>

text \<open>A world for concrete runs: the clock advances a millisecond at every reading.\<close>

definition w0 :: world where
  "w0 = \<lparr>clock = (\<lambda>n. real n / 1000), ticks = 0, rand_src = (\<lambda>n. 0), rand_used = 0,
         key_src = (\<lambda>n. 0), key_used = 0, size_src = (\<lambda>n. (24, 80)), size_used = 0,
         trace = []\<rparr>"

text \<open>
  The upper end of the interval for \<open>target_len\<close> in the words of the specification:
  \<open>max(min_len + 1, max_rows - 2)\<close> with \<open>min_len = max(2, max_rows / 2)\<close>.
\<close>

definition spec_max_len :: "int \<Rightarrow> int" where
  "spec_max_len my = max (max 2 (c_div my 2) + 1) (my - 2)"

text \<open>
  The fade rule in the words of the specification: no glyph beyond 0.8 seconds, else
  \<open>#\<close>, \<open>+\<close> or \<open>*\<close> by the normalised age. \<open>drawn_cell\<close> is what one segment of that
  age puts on a screen of the given size.
\<close>

definition fade_glyph :: "real \<Rightarrow> char option" where
  "fade_glyph age =
     (if age > 0.8 then None
      else if age / 0.8 < 0.33 then Some (CHR ''#'')
      else if age / 0.8 < 0.66 then Some (CHR ''+'')
      else Some (CHR ''*''))"

definition drawn_cell :: "real \<Rightarrow> attr \<Rightarrow> int \<Rightarrow> int \<Rightarrow> segment \<Rightarrow> event list" where
  "drawn_cell age a rows cols s =
     (case fade_glyph age of
        None \<Rightarrow> []
      | Some g \<Rightarrow>
          if 0 \<le> seg_y s \<and> seg_y s < rows \<and> 0 \<le> seg_x s \<and> seg_x s < cols
          then [Mvaddch (seg_y s) (seg_x s) g a] else [])"

text \<open>A state of the simulation for concrete runs.\<close>

definition sim0 :: sim where
  "sim0 = \<lparr>g_rows = 24, g_cols = 80, g_resized = False, thunder = False, last_t = 0,
           rain = [], bolts = [], rain_attr = A_NORMAL, light_attr = A_NORMAL\<lparr>bold := True\<rparr>\<rparr>"

text \<open>
  The time asked of \<^verbatim>\<open>nanosleep\<close> over a trace, in nanoseconds, and the time that
  remains of the frame interval when \<open>pace\<close> reads the clock.
\<close>

fun slept_ns :: "event list \<Rightarrow> int" where
  "slept_ns [] = 0"
| "slept_ns (Nanosleep sec nsec # es) = sec * 1000000000 + nsec + slept_ns es"
| "slept_ns (e # es) = slept_ns es"

definition remaining :: "sim \<Rightarrow> world \<Rightarrow> real" where
  "remaining st w = UPDATE_INTERVAL - (clock w (ticks w) - last_t st)"

text \<open>
  One raindrop advanced by its speed, and the test that keeps it: its integer row is
  above the bottom of the screen. \<open>drops0\<close> is a store for concrete runs.
\<close>

definition advance :: "raindrop \<Rightarrow> raindrop" where
  "advance d = d\<lparr>drop_y := drop_y d + speed d\<rparr>"

definition on_screen :: "int \<Rightarrow> raindrop \<Rightarrow> bool" where
  "on_screen rows d = (int_of_double (drop_y d) < rows)"


text \<open>
  Relations between the world before and after a call. \<open>quiet\<close>: nothing but the
  counters of clock readings and random numbers has changed. \<open>rand_only\<close>: nothing but
  the counter of random numbers has changed.
\<close>

definition quiet :: "world \<Rightarrow> world \<Rightarrow> bool" where
  "quiet w w' = (clock w' = clock w \<and> rand_src w' = rand_src w \<and> key_src w' = key_src w
     \<and> key_used w' = key_used w \<and> size_src w' = size_src w \<and> size_used w' = size_used w
     \<and> trace w' = trace w)"

definition rand_only :: "world \<Rightarrow> world \<Rightarrow> bool" where
  "rand_only w w' = (quiet w w' \<and> ticks w' = ticks w)"

text \<open>
  The two tests of \<^verbatim>\<open>bolt_update\<close>: \<open>grow_now\<close> lets the growth block run at the clock
  reading of the world, \<open>grow_gate\<close> lets the block add segments.
\<close>

definition grow_gate :: "bolt \<Rightarrow> bool" where
  "grow_gate b = (seg_count b < target_len b \<and> seg_y (last (segs b)) < max_y b - 1)"

text \<open>
  Every segment is older than the lifespan when the liveness loop looks at it: the loop
  starts at reading \<open>k\<close> of the clock and takes one reading for each segment.
\<close>

fun expired :: "(nat \<Rightarrow> real) \<Rightarrow> nat \<Rightarrow> segment list \<Rightarrow> bool" where
  "expired clk k [] = True"
| "expired clk k (s # ss) = (clk k - birth s > SEGMENT_LIFESPAN \<and> expired clk (Suc k) ss)"

definition grow_now :: "bolt \<Rightarrow> world \<Rightarrow> bool" where
  "grow_now b w = (growing b \<and> clock w (ticks w) - last_growth b \<ge> LIGHTNING_GROWTH_DELAY)"

text \<open>
  The pass over the bolt store as a recursion over the list of bolts: each bolt is
  updated in the world its predecessors left, kept when alive and freed when not.
\<close>

fun bolts_pass :: "bolt list \<Rightarrow> world \<Rightarrow> fault + bolt list \<times> world" where
  "bolts_pass [] w = Inr ([], w)"
| "bolts_pass (b # bs) w =
     (case bolt_update b w of
        Inl e \<Rightarrow> Inl e
      | Inr (alive, b', w1) \<Rightarrow>
          (case bolts_pass bs (if alive then w1 else emit (Free (segs b')) w1) of
             Inl e \<Rightarrow> Inl e
           | Inr (ks, w2) \<Rightarrow> Inr ((if alive then b' # ks else ks), w2)))"

text \<open>
  Invariants. \<open>bolt_ok\<close>: the bolt has a segment, and the segments pushed by the
  primary iteration, with the first segment, are within the segment count and within
  \<open>target_len\<close>. \<open>fits\<close>: the bolt also has the bounds of the screen. \<open>store_ok\<close>: at
  most three bolts, and all of them fit the current screen.
\<close>

definition bolt_ok :: "bolt \<Rightarrow> bool" where
  "bolt_ok b = (segs b \<noteq> [] \<and> int (trunk b) < seg_count b \<and> int (trunk b) < target_len b)"

definition fits :: "int \<Rightarrow> int \<Rightarrow> bolt \<Rightarrow> bool" where
  "fits rows cols b = (bolt_ok b \<and> max_y b = rows \<and> max_x b = cols)"

definition store_ok :: "sim \<Rightarrow> bool" where
  "store_ok st = (length (bolts st) \<le> 3 \<and> list_all (fits (g_rows st) (g_cols st)) (bolts st))"

text \<open>
  The state after \<open>k\<close> iterations of the loop of \<^verbatim>\<open>main\<close>, from the start of the
  program, when \<^verbatim>\<open>initscr\<close> has returned; the boolean tells that the loop has been left.
\<close>

fun run :: "env \<Rightarrow> world \<Rightarrow> nat \<Rightarrow> fault + bool \<times> sim \<times> world" where
  "run e w 0 = Inr (False, startup e w)"
| "run e w (Suc k) =
     (case run e w k of
        Inl f \<Rightarrow> Inl f
      | Inr (quit, st, w1) \<Rightarrow>
          if quit then Inr (True, st, w1)
          else frame (if winch e k then on_winch st else st) w1)"

text \<open>
  For concrete runs: a terminal without colours that is never resized, a world in which
  the first key is \<^verbatim>\<open>t\<close>, and a bolt whose only segment is older than the lifespan.
\<close>

definition e0 :: env where
  "e0 = \<lparr>isatty_stdout = True, term_var = Some ''xterm'', term_known = True,
         has_colors = False,
         winch = (\<lambda>k. False)\<rparr>"

definition w_storm :: world where
  "w_storm = w0\<lparr>key_src := (\<lambda>n. if n = 0 then 116 else 0)\<rparr>"

definition bolt_storm :: bolt where
  "bolt_storm = \<lparr>target_len = 12, growing = True, last_growth = 0.005, max_y = 24, max_x = 80,
       segs = [\<lparr>seg_y = 0, seg_x = 20, birth = 0.004\<rparr>,
               \<lparr>seg_y = 1, seg_x = 18, birth = 0.005\<rparr>,
               \<lparr>seg_y = 1, seg_x = 17, birth = 0.005\<rparr>],
       trunk = 1\<rparr>"

definition st_storm :: sim where
  "st_storm = sim0\<lparr>thunder := True, last_t := 0.002,
       rain := [\<lparr>drop_x = 0, drop_y = 0.3, speed = 0.3, glyph = CHR ''|''\<rparr>],
       bolts := [bolt_storm]\<rparr>"

definition bolt_old :: bolt where
  "bolt_old = \<lparr>target_len = 12, growing = False, last_growth = - 1, max_y = 24, max_x = 80,
       segs = [\<lparr>seg_y = 0, seg_x = 20, birth = - 1\<rparr>], trunk = 0\<rparr>"

text \<open>
  A sequence of calls of \<^verbatim>\<open>bolt_update\<close> on one bolt, each in a world of its own: the
  calls of the program are separated by other readings of the clock and of the random
  numbers.
\<close>

fun grow_steps :: "bolt \<Rightarrow> world list \<Rightarrow> fault + bolt" where
  "grow_steps b [] = Inr b"
| "grow_steps b (w # ws) =
     (case bolt_update b w of Inl e \<Rightarrow> Inl e | Inr (alive, b', w') \<Rightarrow> grow_steps b' ws)"

text \<open>
  \<open>fresh\<close>: a raindrop as the spawn loop makes it, at row 0 and in a column of the
  screen. \<open>cell_in\<close>: the event writes one cell inside the screen.
\<close>

definition fresh :: "int \<Rightarrow> raindrop \<Rightarrow> bool" where
  "fresh cols d = (drop_y d = 0 \<and> 0 \<le> drop_x d \<and> drop_x d < max 1 cols)"

definition cell_in :: "int \<Rightarrow> int \<Rightarrow> event \<Rightarrow> bool" where
  "cell_in rows cols ev =
     (case ev of Mvaddch y x g a \<Rightarrow> 0 \<le> y \<and> y < rows \<and> 0 \<le> x \<and> x < cols | _ \<Rightarrow> False)"

text \<open>The storm world on a terminal of 24 rows and 1 column.\<close>

definition w_narrow :: world where
  "w_narrow = w_storm\<lparr>size_src := (\<lambda>n. (24, 1))\<rparr>"

text \<open>
  The iteration of the loop up to the spawn block, for an iteration that is not left by
  \<^verbatim>\<open>break\<close>: the resize block, the key, the toggle and the pacing.
\<close>

definition before_spawn :: "sim \<Rightarrow> world \<Rightarrow> sim \<times> world" where
  "before_spawn st w =
     (let (st1, w1) = handle_resize st w;
          (c, w2) = getch w1;
          (st2, w3) = handle_toggle c st1 w2
      in pace st2 w3)"

text \<open>
  What \<open>render\<close> writes for the bolts and for one raindrop. The bolts are drawn one
  after the other, each at a clock reading of its own, starting at reading \<open>k\<close>; every
  segment goes through the fade rule at its age at that reading. A raindrop is drawn at
  its integer row when that cell is on the screen.
\<close>

fun bolts_cells :: "attr \<Rightarrow> int \<Rightarrow> int \<Rightarrow> (nat \<Rightarrow> real) \<Rightarrow> nat \<Rightarrow> bolt list \<Rightarrow> event list" where
  "bolts_cells a rows cols clk k [] = []"
| "bolts_cells a rows cols clk k (b # bs) =
     concat (map (\<lambda>s. drawn_cell (clk k - birth s) a rows cols s) (segs b))
       @ bolts_cells a rows cols clk (Suc k) bs"

definition drop_cells :: "sim \<Rightarrow> raindrop \<Rightarrow> event list" where
  "drop_cells st d =
     (if 0 \<le> int_of_double (drop_y d) \<and> int_of_double (drop_y d) < g_rows st
         \<and> 0 \<le> drop_x d \<and> drop_x d < g_cols st
      then [Mvaddch (int_of_double (drop_y d)) (drop_x d) (glyph d)
             (if thunder st then (rain_attr st)\<lparr>bold := True\<rparr>
              else if speed d < 0.8 then (rain_attr st)\<lparr>dim := True\<rparr> else rain_attr st)]
      else [])"

text \<open>
  The segment arrays handed to \<^verbatim>\<open>free\<close> over a trace, in the order of the calls.
\<close>

fun freed :: "event list \<Rightarrow> segment list list" where
  "freed [] = []"
| "freed (Free ss # es) = ss # freed es"
| "freed (e # es) = freed es"

text \<open>
  For concrete runs: a store that holds the old bolt, a world in which the first key is
  \<^verbatim>\<open>q\<close>, and a state with a resize pending whose store holds a bolt that has just
  been created.
\<close>

definition st_old :: sim where
  "st_old = sim0\<lparr>bolts := [bolt_old]\<rparr>"

definition w_quit :: world where
  "w_quit = w0\<lparr>key_src := (\<lambda>n. 113)\<rparr>"

definition st_resize :: sim where
  "st_resize = sim0\<lparr>g_resized := True, bolts := [bolt_storm]\<rparr>"

section \<open>Arithmetic of the C operators\<close>

lemma c_mod_nonneg: "0 \<le> a \<Longrightarrow> 0 < b \<Longrightarrow> c_mod a b = a mod b"
  by (simp add: c_mod_def c_div_def minus_mult_div_eq_mod algebra_simps)

lemma c_div_2_pos: "0 \<le> a \<Longrightarrow> c_div a 2 = a div 2"
  by (simp add: c_div_def)

section \<open>Creating a bolt\<close>

lemma len_order: "min_len my \<le> max_len my"
  by (simp add: max_len_def Let_def)

lemma min_len_max: "min_len my = max 2 (c_div my 2)"
  by (simp add: min_len_def Let_def)

lemma target_len_create:
  "target_len (fst (bolt_create sr sc my mx w)) =
     min_len my + int (rand_src w (rand_used w)) mod (max_len my - min_len my + 1)"
  using len_order [of my]
  by (simp add: bolt_create_def rand_def now_sec_def seg_push_def Let_def c_mod_nonneg)

lemma max_len_spec: "my \<noteq> 4 \<Longrightarrow> max_len my = spec_max_len my"
proof (cases "0 \<le> my")
  case True
  assume "my \<noteq> 4"
  with True show ?thesis
    by (simp add: max_len_def min_len_def spec_max_len_def Let_def c_div_2_pos) linarith
next
  case False
  then show ?thesis
    by (simp add: max_len_def min_len_def spec_max_len_def Let_def c_div_def)
qed

lemma max_len_le_spec: "max_len my \<le> spec_max_len my"
proof (cases "my = 4")
  case True
  then show ?thesis
    by (simp add: max_len_def min_len_def spec_max_len_def c_div_def)
next
  case False
  then show ?thesis
    by (simp add: max_len_spec)
qed

lemma target_len_4: "target_len (fst (bolt_create sr sc 4 mx w)) = 2"
  by (simp add: target_len_create, simp add: min_len_def max_len_def c_div_def)

lemma target_attained:
  assumes "min_len my \<le> v" "v \<le> max_len my"
  shows "target_len (fst (bolt_create sr sc my mx
           (w\<lparr>rand_src := (\<lambda>n. nat (v - min_len my))\<rparr>))) = v"
  using assms by (simp add: target_len_create)

lemma card_mod_eq:
  fixes m c N :: nat
  assumes c: "c < m"
  shows "card {r. r < N \<and> r mod m = c} = N div m + (if c < N mod m then 1 else 0)"
proof (induction N)
  case 0
  then show ?case by simp
next
  case (Suc N)
  have s: "{r. r < Suc N \<and> r mod m = c} =
      (if N mod m = c then insert N {r. r < N \<and> r mod m = c} else {r. r < N \<and> r mod m = c})"
    by (auto simp add: less_Suc_eq)
  have "card {r. r < Suc N \<and> r mod m = c} =
      card {r. r < N \<and> r mod m = c} + (if N mod m = c then 1 else 0)"
    unfolding s by simp
  also have "\<dots> = N div m + (if c < N mod m then 1 else 0) + (if N mod m = c then 1 else 0)"
    by (simp only: Suc.IH)
  also have "\<dots> = Suc N div m + (if c < Suc N mod m then 1 else 0)"
  proof -
    have "N mod m < m"
      using c by simp
    then show ?thesis
      using c by (auto simp add: div_Suc mod_Suc)
  qed
  finally show ?case .
qed

lemma target_len_count:
  assumes v: "min_len my \<le> v" "v \<le> max_len my"
  shows "card {r. r < N \<and> target_len (fst (bolt_create sr sc my mx
               (w\<lparr>rand_src := (\<lambda>n. r)\<rparr>))) = v} =
     N div nat (max_len my - min_len my + 1)
       + (if nat (v - min_len my) < N mod nat (max_len my - min_len my + 1) then 1 else 0)"
proof -
  define m where "m = nat (max_len my - min_len my + 1)"
  define c where "c = nat (v - min_len my)"
  have mi: "max_len my - min_len my + 1 = int m"
    using len_order [of my] by (simp add: m_def)
  have cm: "c < m"
    using v by (simp add: c_def m_def)
  have e: "\<And>r. (target_len (fst (bolt_create sr sc my mx (w\<lparr>rand_src := (\<lambda>n. r)\<rparr>))) = v)
               = (r mod m = c)"
  proof -
    fix r
    have "(min_len my + int r mod int m = v) = (int (r mod m) = v - min_len my)"
      by (simp add: zmod_int) linarith
    also have "\<dots> = (r mod m = c)"
      using v by (auto simp add: c_def)
    finally show "(target_len (fst (bolt_create sr sc my mx (w\<lparr>rand_src := (\<lambda>n. r)\<rparr>))) = v)
               = (r mod m = c)"
      by (simp add: target_len_create mi)
  qed
  show ?thesis
    unfolding e m_def [symmetric] c_def [symmetric] using card_mod_eq [OF cm] .
qed

text \<open>
  C5, as stated: \<open>target_len\<close> is drawn uniformly from the interval from
  \<open>max(2, max_rows / 2)\<close> to \<open>max(min_len + 1, max_rows - 2)\<close>. On a screen of 4 rows
  that interval is 2 to 3, and no random number makes \<open>bolt_create\<close> choose 3.
\<close>

theorem spec_interval_counterexample:
  "\<not> (\<exists>w. target_len (fst (bolt_create 0 40 4 80 w)) = spec_max_len 4)"
  by (simp add: target_len_4 spec_max_len_def c_div_def)

text \<open>
  C5, amended: \<open>bolt_create\<close> draws \<open>target_len\<close> uniformly from the interval from
  \<open>min_len = max(2, max_rows / 2)\<close> to \<open>max_len\<close>, where \<open>max_len\<close> is \<open>max_rows - 2\<close>
  unless that is below \<open>min_len\<close>, and \<open>min_len + 1\<close> then. The value drawn is
  \<open>min_len\<close> plus the random number modulo the size of the interval, so it lies in the
  interval, every value of the interval is drawn for some random number, and among the
  random numbers below any \<open>N\<close> every value of the interval is drawn by the same
  number of them, \<open>N\<close> divided by the size of the interval, or by one more. \<open>max_len\<close> is
  at most the specification's \<open>max(min_len + 1, max_rows - 2)\<close> and equals it for every
  height but 4. For 20 rows \<open>target_len\<close> lies between 10 and 18.
\<close>

theorem bolt_create_target_len:
  "min_len my = max 2 (c_div my 2)
   \<and> target_len (fst (bolt_create sr sc my mx w)) =
        min_len my + int (rand_src w (rand_used w)) mod (max_len my - min_len my + 1)
   \<and> min_len my \<le> target_len (fst (bolt_create sr sc my mx w))
   \<and> target_len (fst (bolt_create sr sc my mx w)) \<le> max_len my
   \<and> max_len my = (if my - 2 < min_len my then min_len my + 1 else my - 2)
   \<and> max_len my \<le> spec_max_len my
   \<and> (my \<noteq> 4 \<longrightarrow> max_len my = spec_max_len my)
   \<and> (\<forall>v. min_len my \<le> v \<and> v \<le> max_len my \<longrightarrow>
         (\<exists>w'. target_len (fst (bolt_create sr sc my mx w')) = v))
   \<and> (min_len my \<le> u \<and> u \<le> max_len my \<longrightarrow>
         card {r. r < N \<and> target_len (fst (bolt_create sr sc my mx
                   (w\<lparr>rand_src := (\<lambda>n. r)\<rparr>))) = u} =
           N div nat (max_len my - min_len my + 1)
             + (if nat (u - min_len my) < N mod nat (max_len my - min_len my + 1)
                then 1 else 0))
   \<and> (my = 20 \<longrightarrow> 10 \<le> target_len (fst (bolt_create sr sc my mx w))
                  \<and> target_len (fst (bolt_create sr sc my mx w)) \<le> 18)"
proof -
  let ?tl = "target_len (fst (bolt_create sr sc my mx w))"
  have m: "min_len my = max 2 (c_div my 2)"
    by (rule min_len_max)
  have q: "?tl = min_len my + int (rand_src w (rand_used w)) mod (max_len my - min_len my + 1)"
    by (rule target_len_create)
  have a: "min_len my \<le> ?tl"
    using len_order [of my] by (simp add: target_len_create)
  have b: "?tl \<le> max_len my"
  proof -
    have "int (rand_src w (rand_used w)) mod (max_len my - min_len my + 1)
            < max_len my - min_len my + 1"
      using len_order [of my] by (intro pos_mod_bound) simp
    then show ?thesis by (simp add: target_len_create)
  qed
  have e: "max_len my = (if my - 2 < min_len my then min_len my + 1 else my - 2)"
    by (simp add: max_len_def Let_def)
  have f: "max_len my \<le> spec_max_len my"
    by (rule max_len_le_spec)
  have g: "my \<noteq> 4 \<longrightarrow> max_len my = spec_max_len my"
    by (simp add: max_len_spec)
  have c: "\<forall>v. min_len my \<le> v \<and> v \<le> max_len my \<longrightarrow>
         (\<exists>w'. target_len (fst (bolt_create sr sc my mx w')) = v)"
    using target_attained by blast
  have n: "min_len my \<le> u \<and> u \<le> max_len my \<longrightarrow>
         card {r. r < N \<and> target_len (fst (bolt_create sr sc my mx
                   (w\<lparr>rand_src := (\<lambda>n. r)\<rparr>))) = u} =
           N div nat (max_len my - min_len my + 1)
             + (if nat (u - min_len my) < N mod nat (max_len my - min_len my + 1)
                then 1 else 0)"
    using target_len_count [of my u N sr sc mx w] by (intro impI) (elim conjE)
  have d: "min_len 20 = 10" "max_len 20 = 18"
    by (simp_all add: min_len_def max_len_def c_div_def)
  have h: "my = 20 \<longrightarrow> 10 \<le> ?tl \<and> ?tl \<le> 18"
    using a b d by auto
  from m q a b e f g c n h show ?thesis
    by (intro conjI)
qed

theorem bolt_create_target_len_witness:
  "10 \<le> target_len (fst (bolt_create 0 40 20 80 w0))
   \<and> target_len (fst (bolt_create 0 40 20 80 w0)) \<le> 18
   \<and> target_len (fst (bolt_create 0 40 20 80 (w0\<lparr>rand_src := (\<lambda>n. 8)\<rparr>))) = 18
   \<and> target_len (fst (bolt_create 0 40 20 80 (w0\<lparr>rand_src := (\<lambda>n. 9)\<rparr>))) = 10
   \<and> max_len 20 = spec_max_len 20
   \<and> (\<exists>w'. target_len (fst (bolt_create 0 40 20 80 w')) = 14)
   \<and> card {r. r < 18 \<and> target_len (fst (bolt_create 0 40 20 80
             (w0\<lparr>rand_src := (\<lambda>n. r)\<rparr>))) = 14} = 2
   \<and> card {r. r < 2147483648 \<and> target_len (fst (bolt_create 0 40 20 80
             (w0\<lparr>rand_src := (\<lambda>n. r)\<rparr>))) = 14} = 238609294
   \<and> card {r. r < 2147483648 \<and> target_len (fst (bolt_create 0 40 20 80
             (w0\<lparr>rand_src := (\<lambda>n. r)\<rparr>))) = 10} = 238609295"
proof -
  have i: "min_len 20 = 10" "max_len 20 = 18"
    by (simp_all add: min_len_def max_len_def c_div_def)
  have n: "(20::int) \<noteq> 4"
    by simp
  have v: "min_len 20 \<le> 14 \<and> 14 \<le> max_len 20" "min_len 20 \<le> 10 \<and> 10 \<le> max_len 20"
    by (simp_all add: i)
  note ta = bolt_create_target_len [where my = 20 and sr = 0 and sc = 40 and mx = 80
      and w = w0 and u = 14 and N = 18]
  note tb = bolt_create_target_len [where my = 20 and sr = 0 and sc = 40 and mx = 80
      and w = "w0\<lparr>rand_src := (\<lambda>n. 8)\<rparr>" and u = 14 and N = 18]
  note tc = bolt_create_target_len [where my = 20 and sr = 0 and sc = 40 and mx = 80
      and w = "w0\<lparr>rand_src := (\<lambda>n. 9)\<rparr>" and u = 14 and N = 18]
  note tg = bolt_create_target_len [where my = 20 and sr = 0 and sc = 40 and mx = 80
      and w = w0 and u = 14 and N = 2147483648]
  note th = bolt_create_target_len [where my = 20 and sr = 0 and sc = 40 and mx = 80
      and w = w0 and u = 10 and N = 2147483648]
  note t7 = ta [THEN conjunct2, THEN conjunct2, THEN conjunct2, THEN conjunct2,
      THEN conjunct2, THEN conjunct2, THEN conjunct1]
  note t8 = ta [THEN conjunct2, THEN conjunct2, THEN conjunct2, THEN conjunct2,
      THEN conjunct2, THEN conjunct2, THEN conjunct2, THEN conjunct1]
  note t9 = ta [THEN conjunct2, THEN conjunct2, THEN conjunct2, THEN conjunct2,
      THEN conjunct2, THEN conjunct2, THEN conjunct2, THEN conjunct2,
      THEN conjunct1]
  note t10 = ta [THEN conjunct2, THEN conjunct2, THEN conjunct2, THEN conjunct2,
      THEN conjunct2, THEN conjunct2, THEN conjunct2, THEN conjunct2,
      THEN conjunct2]
  from t10 have a: "10 \<le> target_len (fst (bolt_create 0 40 20 80 w0))"
    "target_len (fst (bolt_create 0 40 20 80 w0)) \<le> 18"
    by simp_all
  have b: "target_len (fst (bolt_create 0 40 20 80 (w0\<lparr>rand_src := (\<lambda>n. 8)\<rparr>))) = 18"
    by (simp add: tb [THEN conjunct2, THEN conjunct1] i)
  have c: "target_len (fst (bolt_create 0 40 20 80 (w0\<lparr>rand_src := (\<lambda>n. 9)\<rparr>))) = 10"
    by (simp add: tc [THEN conjunct2, THEN conjunct1] i)
  from t7 n have d: "max_len 20 = spec_max_len 20"
    by blast
  from t8 v have e: "\<exists>w'. target_len (fst (bolt_create 0 40 20 80 w')) = 14"
    by blast
  from t9 v
  have "card {r. r < 18 \<and> target_len (fst (bolt_create 0 40 20 80
             (w0\<lparr>rand_src := (\<lambda>n. r)\<rparr>))) = 14} =
          18 div nat (max_len 20 - min_len 20 + 1)
             + (if nat (14 - min_len 20) < 18 mod nat (max_len 20 - min_len 20 + 1)
                then 1 else 0)"
    by blast
  then have f: "card {r. r < 18 \<and> target_len (fst (bolt_create 0 40 20 80
             (w0\<lparr>rand_src := (\<lambda>n. r)\<rparr>))) = 14} = 2"
    by (simp only: i) simp
  from tg [THEN conjunct2, THEN conjunct2, THEN conjunct2, THEN conjunct2,
      THEN conjunct2, THEN conjunct2, THEN conjunct2, THEN conjunct2,
      THEN conjunct1] v
  have "card {r. r < 2147483648 \<and> target_len (fst (bolt_create 0 40 20 80
             (w0\<lparr>rand_src := (\<lambda>n. r)\<rparr>))) = 14} =
          2147483648 div nat (max_len 20 - min_len 20 + 1)
             + (if nat (14 - min_len 20) < 2147483648 mod nat (max_len 20 - min_len 20 + 1)
                then 1 else 0)"
    by blast
  then have g: "card {r. r < 2147483648 \<and> target_len (fst (bolt_create 0 40 20 80
             (w0\<lparr>rand_src := (\<lambda>n. r)\<rparr>))) = 14} = 238609294"
    by (simp only: i) simp
  from th [THEN conjunct2, THEN conjunct2, THEN conjunct2, THEN conjunct2,
      THEN conjunct2, THEN conjunct2, THEN conjunct2, THEN conjunct2,
      THEN conjunct1] v
  have "card {r. r < 2147483648 \<and> target_len (fst (bolt_create 0 40 20 80
             (w0\<lparr>rand_src := (\<lambda>n. r)\<rparr>))) = 10} =
          2147483648 div nat (max_len 20 - min_len 20 + 1)
             + (if nat (10 - min_len 20) < 2147483648 mod nat (max_len 20 - min_len 20 + 1)
                then 1 else 0)"
    by blast
  then have h: "card {r. r < 2147483648 \<and> target_len (fst (bolt_create 0 40 20 80
             (w0\<lparr>rand_src := (\<lambda>n. r)\<rparr>))) = 10} = 238609295"
    by (simp only: i) simp
  from a b c d e f g h show ?thesis
    by (intro conjI)
qed

section \<open>Drawing a bolt\<close>

lemma draw_segment_trace:
  "draw_segment t a rows cols s w =
     w\<lparr>trace := trace w @ drawn_cell (t - birth s) a rows cols s\<rparr>"
  by (simp add: draw_segment_def drawn_cell_def fade_glyph_def SEGMENT_LIFESPAN_def
      LIGHTNING_CHARS_def emit_def Let_def)

lemma fold_draw_segment:
  "fold (draw_segment t a rows cols) ss w =
     w\<lparr>trace := trace w @ concat (map (\<lambda>s. drawn_cell (t - birth s) a rows cols s) ss)\<rparr>"
  by (induction ss arbitrary: w) (simp_all add: draw_segment_trace)

text \<open>
  C4: \<open>bolt_draw\<close> reads the clock once and changes nothing but the screen; what it
  draws for a segment is decided by the segment's age at that reading through the fade
  rule (\<open>#\<close> below 0.33 of the lifespan, \<open>+\<close> below 0.66, \<open>*\<close> after, nothing beyond
  0.8 seconds), at the segment's own cell when that cell is on the screen. The bolt is
  not an output of \<open>bolt_draw\<close>: a segment that is not drawn stays in the bolt.
\<close>

theorem bolt_draw_fade:
  "bolt_draw b a rows cols w =
     w\<lparr>ticks := Suc (ticks w),
       trace := trace w @
         concat (map (\<lambda>s. drawn_cell (clock w (ticks w) - birth s) a rows cols s) (segs b))\<rparr>"
  by (simp add: bolt_draw_def now_sec_def fold_draw_segment)

section \<open>Frame pacing\<close>

lemma slept_ns_append: "slept_ns (xs @ ys) = slept_ns xs + slept_ns ys"
  by (induction xs rule: slept_ns.induct) simp_all

lemma frac_ns:
  fixes s :: real
  assumes "0 < s"
  shows "\<lfloor>s\<rfloor> * 1000000000 + \<lfloor>(s - of_int \<lfloor>s\<rfloor>) * 1000000000\<rfloor> = \<lfloor>s * 1000000000\<rfloor>"
proof -
  have "(s - of_int \<lfloor>s\<rfloor>) * 1000000000 = s * 1000000000 - of_int (\<lfloor>s\<rfloor> * 1000000000)"
    by (simp add: algebra_simps)
  then have "\<lfloor>(s - of_int \<lfloor>s\<rfloor>) * 1000000000\<rfloor> = \<lfloor>s * 1000000000\<rfloor> - \<lfloor>s\<rfloor> * 1000000000"
    by (simp only: floor_diff_of_int)
  then show ?thesis by simp
qed

lemma sleep_sec_trace:
  "sleep_sec s w = (if s \<le> 0 then w
     else emit (Nanosleep \<lfloor>s\<rfloor> \<lfloor>(s - of_int \<lfloor>s\<rfloor>) * 1000000000\<rfloor>) w)"
proof -
  have "0 \<le> (s - of_int \<lfloor>s\<rfloor>) * 1000000000"
    by simp
  then show ?thesis
    by (simp add: sleep_sec_def int_of_double_def Let_def)
qed

lemma sleep_sec_ns:
  "slept_ns (trace (sleep_sec s w)) = slept_ns (trace w) + (if s \<le> 0 then 0 else \<lfloor>s * 1000000000\<rfloor>)"
  using frac_ns [of s]
  by (simp add: sleep_sec_trace emit_def slept_ns_append)

lemma sleep_sec_other:
  "sleep_sec s w = w\<lparr>trace := trace (sleep_sec s w)\<rparr>"
  by (simp add: sleep_sec_trace emit_def)

lemma pace_trace:
  "trace (snd (pace st w)) = trace (sleep_sec (remaining st w) w)"
  by (simp add: pace_def now_sec_def Let_def remaining_def sleep_sec_trace emit_def split_beta)

text \<open>
  C6: when time remains of the frame interval at the first clock reading of the pacing
  step, the loop asks \<^verbatim>\<open>nanosleep\<close> once, with a valid \<^verbatim>\<open>timespec\<close>, for the remaining
  time in whole nanoseconds, the unit of \<^verbatim>\<open>nanosleep\<close>: the time asked for is at most
  the remaining time and less than a nanosecond short of it. When no time remains the
  loop does not sleep, and the time asked for is never negative. The next frame counts
  its interval from the clock reading taken after the sleep.
\<close>

theorem pace_sleep:
  "slept_ns (trace (snd (pace st w))) - slept_ns (trace w) =
     (if 0 < remaining st w then \<lfloor>remaining st w * 1000000000\<rfloor> else 0)
   \<and> 0 \<le> slept_ns (trace (snd (pace st w))) - slept_ns (trace w)
   \<and> real_of_int (slept_ns (trace (snd (pace st w))) - slept_ns (trace w)) / 1000000000
        \<le> max 0 (remaining st w)
   \<and> max 0 (remaining st w)
        < real_of_int (slept_ns (trace (snd (pace st w))) - slept_ns (trace w) + 1) / 1000000000
   \<and> (remaining st w \<le> 0 \<longrightarrow> trace (snd (pace st w)) = trace w)
   \<and> (0 < remaining st w \<longrightarrow>
        (\<exists>sec nsec. trace (snd (pace st w)) = trace w @ [Nanosleep sec nsec]
           \<and> 0 \<le> sec \<and> 0 \<le> nsec \<and> nsec < 1000000000))
   \<and> last_t (fst (pace st w)) = clock w (Suc (ticks w))"
proof -
  let ?r = "remaining st w"
  let ?d = "slept_ns (trace (snd (pace st w))) - slept_ns (trace w)"
  have a: "?d = (if 0 < ?r then \<lfloor>?r * 1000000000\<rfloor> else 0)"
    by (simp add: pace_trace sleep_sec_ns)
  have b: "0 \<le> ?d"
    unfolding a by simp
  have c: "real_of_int ?d / 1000000000 \<le> max 0 ?r"
    unfolding a by (simp add: divide_le_eq)
  have d: "max 0 ?r < real_of_int (?d + 1) / 1000000000"
    unfolding a by (simp add: less_divide_eq)
  have e: "?r \<le> 0 \<longrightarrow> trace (snd (pace st w)) = trace w"
    by (simp add: pace_trace sleep_sec_trace)
  have f: "0 < ?r \<longrightarrow>
        (\<exists>sec nsec. trace (snd (pace st w)) = trace w @ [Nanosleep sec nsec]
           \<and> 0 \<le> sec \<and> 0 \<le> nsec \<and> nsec < 1000000000)"
  proof
    assume r: "0 < ?r"
    have "(?r - of_int \<lfloor>?r\<rfloor>) * 1000000000 < 1000000000"
      by simp linarith
    then have "\<lfloor>(?r - of_int \<lfloor>?r\<rfloor>) * 1000000000\<rfloor> < 1000000000"
      by (simp add: floor_less_iff)
    moreover have "0 \<le> \<lfloor>(?r - of_int \<lfloor>?r\<rfloor>) * 1000000000\<rfloor>"
      by simp
    moreover have "0 \<le> \<lfloor>?r\<rfloor>"
      using r by simp
    ultimately show "\<exists>sec nsec. trace (snd (pace st w)) = trace w @ [Nanosleep sec nsec]
           \<and> 0 \<le> sec \<and> 0 \<le> nsec \<and> nsec < 1000000000"
      using r by (simp add: pace_trace sleep_sec_trace emit_def)
  qed
  have g: "last_t (fst (pace st w)) = clock w (Suc (ticks w))"
    by (simp add: pace_def now_sec_def sleep_sec_trace emit_def split_beta Let_def)
  from a b c d e f g show ?thesis
    by (intro conjI)
qed

theorem pace_sleep_witness:
  "remaining sim0 w0 = 0.015
   \<and> slept_ns (trace (snd (pace sim0 w0))) - slept_ns (trace w0) = 15000000
   \<and> (\<exists>sec nsec. trace (snd (pace sim0 w0)) = trace w0 @ [Nanosleep sec nsec])
   \<and> remaining (sim0\<lparr>last_t := - 1\<rparr>) w0 = - 0.985
   \<and> trace (snd (pace (sim0\<lparr>last_t := - 1\<rparr>) w0)) = trace w0
   \<and> last_t (fst (pace sim0 w0)) = 0.001"
proof -
  have r: "remaining sim0 w0 = 0.015" "remaining (sim0\<lparr>last_t := - 1\<rparr>) w0 = - 0.985"
    by (simp_all add: remaining_def sim0_def w0_def UPDATE_INTERVAL_def)
  have a: "slept_ns (trace (snd (pace sim0 w0))) - slept_ns (trace w0) = 15000000"
    using pace_sleep [of sim0 w0] by (simp add: r)
  have b: "\<exists>sec nsec. trace (snd (pace sim0 w0)) = trace w0 @ [Nanosleep sec nsec]"
    using pace_sleep [of sim0 w0] by (auto simp add: r)
  have c: "trace (snd (pace (sim0\<lparr>last_t := - 1\<rparr>) w0)) = trace w0"
    using pace_sleep [of "sim0\<lparr>last_t := - 1\<rparr>" w0] by (simp add: r)
  have "last_t (fst (pace sim0 w0)) = clock w0 (Suc (ticks w0))"
    using pace_sleep [of sim0 w0] by blast
  then have d: "last_t (fst (pace sim0 w0)) = 0.001"
    by (simp add: w0_def)
  from r a b c d show ?thesis
    by (intro conjI)
qed

section \<open>Raindrops\<close>

lemma rain_loop_inv:
  "rw \<le> i \<Longrightarrow> i \<le> length v \<Longrightarrow>
   take (fst (rain_loop i rw v rows)) (snd (rain_loop i rw v rows)) =
     take rw v @ filter (on_screen rows) (map advance (drop i v))"
proof (induction i rw v rows rule: rain_loop.induct)
  case (1 i rw v rows)
  show ?case
  proof (cases "i < length v")
    case False
    then have "rain_loop i rw v rows = (rw, v)"
      by (subst rain_loop.simps) simp
    with False "1.prems" show ?thesis
      by simp
  next
    case True
    define v1 where "v1 = v[i := advance (v ! i)]"
    have v1i: "v1 ! i = advance (v ! i)"
      using True by (simp add: v1_def)
    have len1: "length v1 = length v"
      by (simp add: v1_def)
    have dr: "drop i v = v ! i # drop (Suc i) v"
      using True by (simp add: Cons_nth_drop_Suc)
    have dr1: "drop (Suc i) v1 = drop (Suc i) v"
      by (simp add: v1_def)
    have tk1: "take rw v1 = take rw v"
      using "1.prems" by (simp add: v1_def)
    show ?thesis
    proof (cases "on_screen rows (v1 ! i)")
      case keep: True
      define v2 where "v2 = v1[rw := v1 ! i]"
      have step: "rain_loop i rw v rows = rain_loop (Suc i) (Suc rw) v2 rows"
        using True keep
        by (subst rain_loop.simps) (simp add: v1_def v2_def advance_def on_screen_def Let_def)
      have ih: "take (fst (rain_loop (Suc i) (Suc rw) v2 rows)) (snd (rain_loop (Suc i) (Suc rw) v2 rows)) =
              take (Suc rw) v2 @ filter (on_screen rows) (map advance (drop (Suc i) v2))"
        using "1.IH"(1) [OF True, of v1] True keep "1.prems" len1
        by (simp add: v1_def v2_def advance_def [abs_def] on_screen_def [abs_def])
      have rwlt: "rw < length v1"
        using "1.prems" True len1 by simp
      have tk2: "take (Suc rw) v2 = take rw v @ [advance (v ! i)]"
        using rwlt by (simp add: v2_def take_Suc_conv_app_nth tk1 v1i)
      have dr2: "drop (Suc i) v2 = drop (Suc i) v"
        using "1.prems" by (simp add: v2_def dr1)
      show ?thesis
        using keep by (simp add: step ih tk2 dr2 dr v1i)
    next
      case drop: False
      have step: "rain_loop i rw v rows = rain_loop (Suc i) rw v1 rows"
        using True drop
        by (subst rain_loop.simps) (simp add: v1_def advance_def on_screen_def Let_def)
      have ih: "take (fst (rain_loop (Suc i) rw v1 rows)) (snd (rain_loop (Suc i) rw v1 rows)) =
              take rw v1 @ filter (on_screen rows) (map advance (drop (Suc i) v1))"
        using "1.IH"(2) [OF True, of v1] True drop "1.prems" len1
        by (simp add: v1_def advance_def [abs_def] on_screen_def [abs_def])
      show ?thesis
        using drop by (simp add: step ih tk1 dr1 dr v1i)
    qed
  qed
qed

lemma advance_rain_filter:
  "rain (advance_rain st) = filter (on_screen (g_rows st)) (map advance (rain st))"
  using rain_loop_inv [of 0 0 "rain st" "g_rows st"]
  by (simp add: advance_rain_def split_beta)






section \<open>Updating a bolt\<close>

lemma rand_only_refl [simp]: "rand_only w w"
  by (simp add: rand_only_def quiet_def)

lemma rand_only_trans: "rand_only w w1 \<Longrightarrow> rand_only w1 w2 \<Longrightarrow> rand_only w w2"
  by (simp add: rand_only_def quiet_def)

lemma rand_only_rand [simp]: "rand_only w (snd (rand w))"
  by (simp add: rand_only_def quiet_def rand_def)

lemma rand_only_rand2: "rand_only w w1 \<Longrightarrow> rand_only w (snd (rand w1))"
  by (simp add: rand_only_def quiet_def rand_def)

lemma rand_nonneg [simp]: "0 \<le> fst (rand w)"
  by (simp add: rand_def)

lemma branch_loop_props:
  "branch_loop i br lst t cx p added b w = (p', added', b', w') \<Longrightarrow>
     target_len b' = target_len b \<and> max_y b' = max_y b \<and> max_x b' = max_x b
     \<and> growing b' = growing b \<and> last_growth b' = last_growth b
     \<and> (\<exists>ext. segs b' = segs b @ ext \<and> int (length ext) = max 0 (br - i))
     \<and> trunk b' = trunk b + (if i \<le> 0 \<and> 0 < br then 1 else 0)
     \<and> added' = (added \<or> i < br)
     \<and> rand_only w w'"
proof (induction "nat (br - i)" arbitrary: i cx p added b w)
  case 0
  then have "branch_loop i br lst t cx p added b w = (p, added, b, w)"
    by (subst branch_loop.simps) simp
  with 0 show ?case
    by auto
next
  case (Suc n)
  then have lt: "i < br"
    by simp
  define nx where "nx = (let nx0 = cx + (c_mod (fst (rand w)) 5 - 2);
                             nx1 = (if nx0 < 0 then 0 else nx0)
                         in if nx1 \<ge> max_x b then max_x b - 1 else nx1)"
  define ny where "ny = (let ny0 = seg_y lst + 1
                         in if ny0 \<ge> max_y b then max_y b - 1 else ny0)"
  define b1 where "b1 = seg_push b \<lparr>seg_y = ny, seg_x = nx, birth = t\<rparr>"
  define b2 where "b2 = (if i = 0 then b1\<lparr>trunk := Suc (trunk b1)\<rparr> else b1)"
  define p2 where "p2 = (if i = 0 then nx else p)"
  have step: "branch_loop i br lst t cx p added b w =
                branch_loop (i + 1) br lst t nx p2 True b2 (snd (rand w))"
    using lt
    by (subst branch_loop.simps) (simp add: Let_def nx_def ny_def b1_def b2_def p2_def)
  have n: "n = nat (br - (i + 1))"
    using Suc.hyps(2) by simp
  have prem: "branch_loop (i + 1) br lst t nx p2 True b2 (snd (rand w)) = (p', added', b', w')"
    using Suc.prems step by simp
  have ih: "target_len b' = target_len b2 \<and> max_y b' = max_y b2 \<and> max_x b' = max_x b2
     \<and> growing b' = growing b2 \<and> last_growth b' = last_growth b2
     \<and> (\<exists>ext. segs b' = segs b2 @ ext \<and> int (length ext) = max 0 (br - (i + 1)))
     \<and> trunk b' = trunk b2 + (if i + 1 \<le> 0 \<and> 0 < br then 1 else 0)
     \<and> added' = (True \<or> i + 1 < br)
     \<and> rand_only (snd (rand w)) w'"
    using Suc.hyps(1) [OF n prem] by simp
  have f2: "target_len b2 = target_len b" "max_y b2 = max_y b" "max_x b2 = max_x b"
    "growing b2 = growing b" "last_growth b2 = last_growth b"
    "segs b2 = segs b @ [\<lparr>seg_y = ny, seg_x = nx, birth = t\<rparr>]"
    "trunk b2 = trunk b + (if i = 0 then 1 else 0)"
    by (simp_all add: b2_def b1_def seg_push_def)
  from ih obtain ext where ext: "segs b' = segs b2 @ ext"
    "int (length ext) = max 0 (br - (i + 1))"
    by blast
  have e: "\<exists>ext. segs b' = segs b @ ext \<and> int (length ext) = max 0 (br - i)"
    using ext lt by (intro exI [of _ "\<lparr>seg_y = ny, seg_x = nx, birth = t\<rparr> # ext"]) (simp add: f2)
  have tr: "trunk b' = trunk b + (if i \<le> 0 \<and> 0 < br then 1 else 0)"
    using ih lt by (auto simp add: f2)
  have ro: "rand_only w w'"
    using ih rand_only_rand rand_only_trans by blast
  show ?case
    using ih e tr ro lt by (simp add: f2)
qed

lemma fork_step_cases:
  "\<exists>s w3. rand_only w w3 \<and>
     (fork_step lst t p added b w = (True, seg_push b s, w3)
      \<or> fork_step lst t p added b w = (added, b, w3))"
proof (cases "real_of_int (fst (rand w)) / RAND_MAX < FORK_CHANCE")
  case False
  then have "fork_step lst t p added b w = (added, b, snd (rand w))"
    by (simp add: fork_step_def split_beta)
  then show ?thesis
    using rand_only_rand by blast
next
  case True
  define w1 where "w1 = snd (rand w)"
  define w2 where "w2 = snd (rand w1)"
  define off0 where
    "off0 = c_mod (fst (rand w1)) (2 * FORK_HORIZONTAL_SPREAD + 1) - FORK_HORIZONTAL_SPREAD"
  define w3 where "w3 = (if off0 = 0 then snd (rand w2) else w2)"
  define off where
    "off = (if off0 = 0 then (if c_mod (fst (rand w2)) 2 \<noteq> 0 then - 1 else 1) else off0)"
  define fx where "fx = (let fx0 = seg_x lst + off; fx1 = (if fx0 < 0 then 0 else fx0)
                         in if fx1 \<ge> max_x b then max_x b - 1 else fx1)"
  define fy where "fy = (let fy0 = seg_y lst + 1
                         in if fy0 \<ge> max_y b then max_y b - 1 else fy0)"
  have "rand_only w w1" "rand_only w1 w2" "rand_only w2 w3"
    by (simp_all add: w1_def w2_def w3_def)
  then have ro: "rand_only w w3"
    using rand_only_trans by blast
  have "fork_step lst t p added b w =
          (if fx \<noteq> p then (True, seg_push b \<lparr>seg_y = fy, seg_x = fx, birth = t\<rparr>, w3)
           else (added, b, w3))"
    using True
    by (simp add: fork_step_def split_beta Let_def w1_def w2_def w3_def off0_def off_def
        fx_def fy_def)
  then show ?thesis
    using ro by (cases "fx \<noteq> p") auto
qed

lemma fork_step_props:
  assumes "fork_step lst t p added b w = (added', b', w')"
  shows "target_len b' = target_len b \<and> max_y b' = max_y b \<and> max_x b' = max_x b
     \<and> growing b' = growing b \<and> last_growth b' = last_growth b
     \<and> (\<exists>ext. segs b' = segs b @ ext)
     \<and> trunk b' = trunk b
     \<and> (added \<longrightarrow> added')
     \<and> rand_only w w'"
proof -
  obtain s w3 where ro: "rand_only w w3"
    and c: "fork_step lst t p added b w = (True, seg_push b s, w3)
            \<or> fork_step lst t p added b w = (added, b, w3)"
    using fork_step_cases by blast
  from c show ?thesis
  proof
    assume "fork_step lst t p added b w = (True, seg_push b s, w3)"
    with assms ro show ?thesis
      by (auto simp add: seg_push_def)
  next
    assume "fork_step lst t p added b w = (added, b, w3)"
    with assms ro show ?thesis
      by auto
  qed
qed

lemma bolt_grow_empty: "segs b = [] \<Longrightarrow> bolt_grow t b w = Inl OutOfBounds"
  by (simp add: bolt_grow_def)

lemma bolt_grow_props:
  assumes ne: "segs b \<noteq> []"
  shows "\<exists>b' w'. bolt_grow t b w = Inr (b', w')
     \<and> target_len b' = target_len b \<and> max_y b' = max_y b \<and> max_x b' = max_x b
     \<and> rand_only w w'
     \<and> (\<exists>ext. segs b' = segs b @ ext
          \<and> (if grow_gate b then ext \<noteq> [] \<and> trunk b' = Suc (trunk b)
              else ext = [] \<and> trunk b' = trunk b))"
proof (cases "grow_gate b")
  case False
  then show ?thesis
    using ne by (auto simp add: bolt_grow_def grow_gate_def seg_count_def Let_def)
next
  case True
  define b0 where "b0 = b\<lparr>last_growth := t\<rparr>"
  define lst where "lst = last (segs b0)"
  define w1 where "w1 = snd (rand w)"
  define br where "br = (if real_of_int (fst (rand w)) / RAND_MAX < LIGHTNING_BRANCH_CHANCE
                         then c_mod (fst (rand w1)) (LIGHTNING_MAX_BRANCHES + 1) + 1 else 1)"
  define w2 where "w2 = (if real_of_int (fst (rand w)) / RAND_MAX < LIGHTNING_BRANCH_CHANCE
                         then snd (rand w1) else w1)"
  obtain p added1 b1 w3 where
    bl: "branch_loop 0 br lst t (seg_x lst) (seg_x lst) False b0 w2 = (p, added1, b1, w3)"
    by (metis prod_cases4)
  obtain added b3 w4 where fs: "fork_step lst t p added1 b1 w3 = (added, b3, w4)"
    by (metis prod_cases3)
  define b4 where "b4 = (if \<not> added \<or> seg_count b3 \<ge> target_len b3 \<or> seg_y lst \<ge> max_y b3 - 1
                         then b3\<lparr>growing := False\<rparr> else b3)"
  have res: "bolt_grow t b w = Inr (b4, w4)"
  proof (cases "real_of_int (fst (rand w)) / RAND_MAX < LIGHTNING_BRANCH_CHANCE")
    case c: True
    then have "br = c_mod (fst (rand w1)) (LIGHTNING_MAX_BRANCHES + 1) + 1" "w2 = snd (rand w1)"
      by (simp_all add: br_def w2_def)
    with ne True bl fs c show ?thesis
      unfolding b4_def w1_def lst_def b0_def grow_gate_def seg_count_def
      by (simp add: bolt_grow_def seg_count_def Let_def split_beta)
  next
    case c: False
    then have "br = 1" "w2 = w1"
      by (simp_all add: br_def w2_def)
    with ne True bl fs c show ?thesis
      unfolding b4_def w1_def lst_def b0_def grow_gate_def seg_count_def
      by (simp add: bolt_grow_def seg_count_def Let_def split_beta)
  qed
  have brpos: "0 < br"
    by (simp add: br_def LIGHTNING_MAX_BRANCHES_def c_mod_nonneg)
  have ro2: "rand_only w w2"
    by (simp add: w2_def w1_def rand_only_rand2)
  note p1 = branch_loop_props [OF bl]
  note p2 = fork_step_props [OF fs]
  from p1 brpos obtain e1 where e1: "segs b1 = segs b0 @ e1" "e1 \<noteq> []"
    by auto
  from p2 obtain e2 where e2: "segs b3 = segs b1 @ e2"
    by blast
  have sg: "segs b4 = segs b @ (e1 @ e2)" "e1 @ e2 \<noteq> []"
    using e1 e2 by (simp_all add: b4_def b0_def)
  have tr: "trunk b4 = Suc (trunk b)"
    using p1 p2 brpos by (simp add: b4_def b0_def)
  have fl: "target_len b4 = target_len b" "max_y b4 = max_y b" "max_x b4 = max_x b"
    using p1 p2 by (simp_all add: b4_def b0_def)
  have ro: "rand_only w w4"
    using ro2 p1 p2 rand_only_trans by blast
  show ?thesis
    using res sg tr fl ro True by auto
qed

lemma quiet_refl [simp]: "quiet w w"
  by (simp add: quiet_def)

lemma quiet_trans: "quiet w w1 \<Longrightarrow> quiet w1 w2 \<Longrightarrow> quiet w w2"
  by (simp add: quiet_def)

lemma rand_only_quiet: "rand_only w w' \<Longrightarrow> quiet w w'"
  by (simp add: rand_only_def)

lemma quiet_now_sec [simp]: "quiet w (snd (now_sec w))"
  by (simp add: quiet_def now_sec_def)

lemma any_alive_fst:
  "fst (any_alive ss w) = (\<not> expired (clock w) (ticks w) ss)"
proof (induction ss arbitrary: w)
  case Nil
  show ?case by simp
next
  case (Cons s ss)
  show ?case
    using Cons [of "snd (now_sec w)"]
    by (auto simp add: now_sec_def split_beta)
qed

lemma expired_iff:
  "expired clk k ss = (\<forall>i<length ss. clk (k + i) - birth (ss ! i) > SEGMENT_LIFESPAN)"
proof (induction ss arbitrary: k)
  case Nil
  show ?case by simp
next
  case (Cons s ss)
  show ?case
    by (simp add: Cons All_less_Suc2)
qed

lemma any_alive_snd:
  "quiet w (snd (any_alive ss w)) \<and> rand_used (snd (any_alive ss w)) = rand_used w
   \<and> ticks w \<le> ticks (snd (any_alive ss w))
   \<and> ticks (snd (any_alive ss w)) \<le> ticks w + length ss"
proof (induction ss arbitrary: w)
  case Nil
  show ?case
    by simp
next
  case (Cons s ss)
  show ?case
    using Cons [of "snd (now_sec w)"]
    by (simp add: now_sec_def split_beta quiet_def)
qed

lemma any_alive_quiet: "quiet w (snd (any_alive ss w))"
  by (simp add: any_alive_snd)

lemma bolt_update_idle:
  assumes "\<not> grow_now b w"
  shows "bolt_update b w =
     Inr (\<not> expired (clock w) (Suc (ticks w)) (segs b), b, snd (any_alive (segs b) (snd (now_sec w))))"
  using assms any_alive_fst [of "segs b" "snd (now_sec w)"]
  by (auto simp add: bolt_update_def grow_now_def now_sec_def split_beta)

lemma bolt_update_fault:
  assumes "grow_now b w" "segs b = []"
  shows "bolt_update b w = Inl OutOfBounds"
  using assms by (simp add: bolt_update_def grow_now_def now_sec_def split_beta bolt_grow_empty)

lemma bolt_update_grow:
  assumes g: "grow_now b w" and ne: "segs b \<noteq> []"
  shows "\<exists>b' w'. bolt_update b w = Inr (\<not> expired (clock w) (Suc (ticks w)) (segs b'), b', w')
     \<and> target_len b' = target_len b \<and> max_y b' = max_y b \<and> max_x b' = max_x b
     \<and> quiet w w'
     \<and> (\<exists>ext. segs b' = segs b @ ext
          \<and> (if grow_gate b then ext \<noteq> [] \<and> trunk b' = Suc (trunk b)
              else ext = [] \<and> trunk b' = trunk b))"
proof -
  define w0 where "w0 = snd (now_sec w)"
  obtain b' w1 where gr: "bolt_grow (clock w (ticks w)) b w0 = Inr (b', w1)"
    and f: "target_len b' = target_len b" "max_y b' = max_y b" "max_x b' = max_x b"
    and ro: "rand_only w0 w1"
    and ex: "\<exists>ext. segs b' = segs b @ ext
          \<and> (if grow_gate b then ext \<noteq> [] \<and> trunk b' = Suc (trunk b)
              else ext = [] \<and> trunk b' = trunk b)"
    using bolt_grow_props [OF ne, of "clock w (ticks w)" w0] by blast
  have q1: "quiet w w1"
    using ro rand_only_quiet quiet_now_sec quiet_trans w0_def by blast
  have ck: "clock w1 = clock w" "ticks w1 = Suc (ticks w)"
    using ro by (simp_all add: rand_only_def quiet_def w0_def now_sec_def)
  have upd: "bolt_update b w =
      Inr (\<not> expired (clock w) (Suc (ticks w)) (segs b'), b', snd (any_alive (segs b') w1))"
    using g gr any_alive_fst [of "segs b'" w1]
    by (simp add: bolt_update_def grow_now_def now_sec_def split_beta w0_def ck)
  have "quiet w (snd (any_alive (segs b') w1))"
    using q1 any_alive_quiet quiet_trans by blast
  with upd f ex show ?thesis
    by blast
qed

lemma bolt_update_Inr:
  assumes u: "bolt_update b w = Inr (alive, b', w')"
  shows "alive = (\<not> expired (clock w) (Suc (ticks w)) (segs b'))
     \<and> target_len b' = target_len b \<and> max_y b' = max_y b \<and> max_x b' = max_x b
     \<and> quiet w w'
     \<and> (\<exists>ext. segs b' = segs b @ ext
          \<and> (if grow_now b w \<and> grow_gate b then ext \<noteq> [] \<and> trunk b' = Suc (trunk b)
              else ext = [] \<and> trunk b' = trunk b))"
proof (cases "grow_now b w")
  case False
  have "quiet w (snd (any_alive (segs b) (snd (now_sec w))))"
    using quiet_now_sec any_alive_quiet quiet_trans by blast
  with False u show ?thesis
    by (auto simp add: bolt_update_idle)
next
  case True
  show ?thesis
  proof (cases "segs b = []")
    case e: True
    with True u show ?thesis
      by (simp add: bolt_update_fault)
  next
    case ne: False
    from bolt_update_grow [OF True ne] u True show ?thesis
      by auto
  qed
qed

lemma bolt_update_total:
  assumes "segs b \<noteq> []"
  shows "\<exists>alive b' w'. bolt_update b w = Inr (alive, b', w')"
proof (cases "grow_now b w")
  case False
  then show ?thesis
    by (simp add: bolt_update_idle)
next
  case True
  from bolt_update_grow [OF True assms] show ?thesis
    by blast
qed

lemma bolt_update_Inl:
  "bolt_update b w = Inl e \<Longrightarrow> e = OutOfBounds \<and> grow_now b w \<and> segs b = []"
  using bolt_update_total [of b w] bolt_update_idle [of b w] bolt_update_fault [of b w]
  by (cases "grow_now b w"; cases "segs b = []") auto

lemma bolts_loop_pass:
  "wi \<le> i \<Longrightarrow> i \<le> length v \<Longrightarrow>
   (case bolts_loop i wi v w of
      Inl e \<Rightarrow> bolts_pass (drop i v) w = Inl e
    | Inr (n, v', w') \<Rightarrow>
        (\<exists>ks. bolts_pass (drop i v) w = Inr (ks, w') \<and> take n v' = take wi v @ ks))"
proof (induction "length v - i" arbitrary: i wi v w)
  case 0
  then have "bolts_loop i wi v w = Inr (wi, v, w)"
    by (subst bolts_loop.simps) simp
  with 0 show ?case
    by simp
next
  case (Suc m)
  then have lt: "i < length v"
    by simp
  have dr: "drop i v = v ! i # drop (Suc i) v"
    using lt by (simp add: Cons_nth_drop_Suc)
  show ?case
  proof (cases "bolt_update (v ! i) w")
    case (Inl e)
    then have "bolts_loop i wi v w = Inl e"
      using lt by (subst bolts_loop.simps) simp
    with Inl show ?thesis
      by (simp add: dr)
  next
    case (Inr r)
    obtain alive b' w1 where r: "r = (alive, b', w1)"
      by (cases r)
    define v1 where "v1 = v[i := b']"
    have v1i: "v1 ! i = b'"
      using lt by (simp add: v1_def)
    have dr1: "drop (Suc i) v1 = drop (Suc i) v"
      by (simp add: v1_def)
    have tk1: "take wi v1 = take wi v"
      using Suc.prems by (simp add: v1_def)
    show ?thesis
    proof (cases alive)
      case True
      define v2 where "v2 = v1[wi := b']"
      have step: "bolts_loop i wi v w = bolts_loop (Suc i) (Suc wi) v2 w1"
        using lt Inr r True
        by (subst bolts_loop.simps) (simp add: v1_def v2_def Let_def)
      have m: "m = length v2 - Suc i"
        using Suc.hyps(2) by (simp add: v2_def v1_def)
      have b1: "Suc wi \<le> Suc i" "Suc i \<le> length v2"
        using Suc.prems lt by (simp_all add: v2_def v1_def)
      have tk2: "take (Suc wi) v2 = take wi v @ [b']"
        using Suc.prems lt by (simp add: v2_def take_Suc_conv_app_nth tk1 v1_def)
      have dr2: "drop (Suc i) v2 = drop (Suc i) v"
        using Suc.prems by (simp add: v2_def dr1)
      show ?thesis
        using Suc.hyps(1) [OF m b1, of w1] Inr r True
        by (auto simp add: step dr tk2 dr2 split: sum.splits)
    next
      case False
      have step: "bolts_loop i wi v w = bolts_loop (Suc i) wi v1 (emit (Free (segs b')) w1)"
        using lt Inr r False
        by (subst bolts_loop.simps) (simp add: v1_def Let_def)
      have m: "m = length v1 - Suc i"
        using Suc.hyps(2) by (simp add: v1_def)
      have b1: "wi \<le> Suc i" "Suc i \<le> length v1"
        using Suc.prems lt by (simp_all add: v1_def)
      show ?thesis
        using Suc.hyps(1) [OF m b1, of "emit (Free (segs b')) w1"] Inr r False
        by (auto simp add: step dr tk1 dr1 split: sum.splits)
    qed
  qed
qed

lemma update_bolts_pass:
  "update_bolts st w =
     (case bolts_pass (bolts st) w of
        Inl e \<Rightarrow> Inl e
      | Inr (ks, w') \<Rightarrow> Inr (st\<lparr>bolts := ks\<rparr>, w'))"
  using bolts_loop_pass [of 0 0 "bolts st" w]
  by (auto simp add: update_bolts_def split: sum.splits)

section \<open>The bolt store across frames\<close>

lemma min_len_ge2: "2 \<le> min_len my"
  by (simp add: min_len_def Let_def)

lemma bolt_create_fits: "fits my mx (fst (bolt_create sr sc my mx w))"
proof -
  have "0 \<le> int (rand_src w (rand_used w)) mod (max_len my - min_len my + 1)"
    using len_order [of my] by (intro pos_mod_sign) simp
  then have "2 \<le> target_len (fst (bolt_create sr sc my mx w))"
    using min_len_ge2 [of my] by (simp add: target_len_create)
  then show ?thesis
    by (simp add: fits_def bolt_ok_def seg_count_def bolt_create_def seg_push_def split_beta Let_def)
qed

lemma bolt_update_ok:
  assumes u: "bolt_update b w = Inr (alive, b', w')" and ok: "bolt_ok b"
  shows "bolt_ok b'"
proof -
  from bolt_update_Inr [OF u] obtain ext where
    t: "target_len b' = target_len b"
    and s: "segs b' = segs b @ ext"
    and c: "if grow_now b w \<and> grow_gate b then ext \<noteq> [] \<and> trunk b' = Suc (trunk b)
            else ext = [] \<and> trunk b' = trunk b"
    by blast
  show ?thesis
  proof (cases "grow_now b w \<and> grow_gate b")
    case True
    with c obtain x xs where "ext = x # xs" "trunk b' = Suc (trunk b)"
      by (cases ext) simp_all
    moreover from True have "seg_count b < target_len b"
      by (simp add: grow_gate_def)
    ultimately show ?thesis
      using ok t s by (simp add: bolt_ok_def seg_count_def)
  next
    case False
    with c ok t s show ?thesis
      by (simp add: bolt_ok_def seg_count_def)
  qed
qed

lemma bolt_update_fits:
  assumes u: "bolt_update b w = Inr (alive, b', w')" and ok: "fits r c b"
  shows "fits r c b'"
  using bolt_update_ok [OF u] bolt_update_Inr [OF u] ok by (simp add: fits_def)

lemma bolts_pass_total:
  "list_all (\<lambda>b. segs b \<noteq> []) bs \<Longrightarrow> \<exists>ks w'. bolts_pass bs w = Inr (ks, w')"
proof (induction bs arbitrary: w)
  case Nil
  show ?case by simp
next
  case (Cons b bs)
  then obtain alive b' w1 where u: "bolt_update b w = Inr (alive, b', w1)"
    using bolt_update_total [of b w] by auto
  obtain ks w2 where "bolts_pass bs (if alive then w1 else emit (Free (segs b')) w1) = Inr (ks, w2)"
    using Cons by fastforce
  with u show ?case
    by simp
qed

lemma bolts_pass_fits:
  "bolts_pass bs w = Inr (ks, w') \<Longrightarrow> list_all (fits r c) bs \<Longrightarrow>
     list_all (fits r c) ks \<and> length ks \<le> length bs"
proof (induction bs arbitrary: w ks)
  case Nil
  then show ?case by simp
next
  case (Cons b bs)
  from Cons.prems(1) obtain alive b' w1 where u: "bolt_update b w = Inr (alive, b', w1)"
    by (auto split: sum.splits)
  from Cons.prems(1) u obtain ks' where
    p: "bolts_pass bs (if alive then w1 else emit (Free (segs b')) w1) = Inr (ks', w')"
    and k: "ks = (if alive then b' # ks' else ks')"
    by (auto split: sum.splits)
  have "fits r c b'"
    using bolt_update_fits [OF u] Cons.prems(2) by simp
  moreover have "list_all (fits r c) ks' \<and> length ks' \<le> length bs"
    using Cons.IH [OF p] Cons.prems(2) by simp
  ultimately show ?case
    using k by simp
qed

lemma fold_free:
  "fold (\<lambda>b. emit (Free (segs b))) bs w = w\<lparr>trace := trace w @ map (\<lambda>b. Free (segs b)) bs\<rparr>"
  by (induction bs arbitrary: w) (simp_all add: emit_def)

lemma handle_resize_eq:
  "handle_resize st w =
     (if g_resized st
      then (st\<lparr>g_resized := False, g_rows := fst (size_src w (size_used w)),
               g_cols := snd (size_src w (size_used w)), rain := [], bolts := []\<rparr>,
            w\<lparr>size_used := Suc (size_used w),
              trace := trace w @ [Endwin, Refresh, Clear] @ map (\<lambda>b. Free (segs b)) (bolts st)\<rparr>)
      else (st, w))"
  by (simp add: handle_resize_def getmaxyx_def emit_def fold_free split_beta Let_def)

lemma handle_toggle_fields [simp]:
  "bolts (fst (handle_toggle c st w)) = bolts st"
  "g_rows (fst (handle_toggle c st w)) = g_rows st"
  "g_cols (fst (handle_toggle c st w)) = g_cols st"
  "rain (fst (handle_toggle c st w)) = rain st"
  "g_resized (fst (handle_toggle c st w)) = g_resized st"
  "thunder (fst (handle_toggle c st w)) = (if c = 116 \<or> c = 84 then \<not> thunder st else thunder st)"
  by (simp_all add: handle_toggle_def)

lemma pace_fields [simp]:
  "bolts (fst (pace st w)) = bolts st"
  "g_rows (fst (pace st w)) = g_rows st"
  "g_cols (fst (pace st w)) = g_cols st"
  "rain (fst (pace st w)) = rain st"
  "g_resized (fst (pace st w)) = g_resized st"
  "thunder (fst (pace st w)) = thunder st"
  by (simp_all add: pace_def split_beta Let_def)

lemma spawn_rain_fields [simp]:
  "bolts (fst (spawn_rain st w)) = bolts st"
  "g_rows (fst (spawn_rain st w)) = g_rows st"
  "g_cols (fst (spawn_rain st w)) = g_cols st"
  "g_resized (fst (spawn_rain st w)) = g_resized st"
  "thunder (fst (spawn_rain st w)) = thunder st"
  by (simp_all add: spawn_rain_def split_beta Let_def)

lemma advance_rain_fields [simp]:
  "bolts (advance_rain st) = bolts st"
  "g_rows (advance_rain st) = g_rows st"
  "g_cols (advance_rain st) = g_cols st"
  "g_resized (advance_rain st) = g_resized st"
  "thunder (advance_rain st) = thunder st"
  by (simp_all add: advance_rain_def split_beta)

lemma update_bolts_Inr:
  assumes "update_bolts st w = Inr (st', w')"
  shows "bolts_pass (bolts st) w = Inr (bolts st', w')
         \<and> g_rows st' = g_rows st \<and> g_cols st' = g_cols st \<and> thunder st' = thunder st
         \<and> rain st' = rain st \<and> g_resized st' = g_resized st"
  using assms by (auto simp add: update_bolts_pass split: sum.splits)

lemma spawn_bolt_off: "\<not> thunder st \<Longrightarrow> spawn_bolt st w = Inr (st, w)"
  by (simp add: spawn_bolt_def)

lemma spawn_bolt_full: "3 \<le> length (bolts st) \<Longrightarrow> spawn_bolt st w = Inr (st, w)"
  by (simp add: spawn_bolt_def)

lemma spawn_bolt_Inr:
  assumes "spawn_bolt st w = Inr (st', w')"
  shows "(st' = st \<or> (thunder st \<and> length (bolts st) < 3
            \<and> (\<exists>b. st' = st\<lparr>bolts := bolts st @ [b]\<rparr> \<and> fits (g_rows st) (g_cols st) b)))
         \<and> quiet w w'"
proof (cases "thunder st \<and> int (length (bolts st)) < 3")
  case False
  with assms show ?thesis
    by (auto simp add: spawn_bolt_def)
next
  case gate: True
  show ?thesis
  proof (cases "real_of_int (fst (rand w)) / RAND_MAX < LIGHTNING_CHANCE")
    case False
    with gate assms have "st' = st" "w' = snd (rand w)"
      by (simp_all add: spawn_bolt_def split_beta)
    then show ?thesis
      using rand_only_rand rand_only_quiet by simp
  next
    case True
    define w0' where "w0' = snd (rand w)"
    define w1 where "w1 = snd (rand w0')"
    define w2 where "w2 = snd (rand w1)"
    from assms gate True obtain m1 start_row where
      r: "st' = st\<lparr>bolts := bolts st @ [fst (bolt_create start_row (c_div (g_cols st) 4 + m1)
                     (g_rows st) (g_cols st) w2)]\<rparr>"
       "w' = snd (bolt_create start_row (c_div (g_cols st) 4 + m1) (g_rows st) (g_cols st) w2)"
      by (auto simp add: spawn_bolt_def split_beta Let_def w0'_def w1_def w2_def
          split: sum.splits)
    have "quiet w w2"
      by (simp add: quiet_def w0'_def w1_def w2_def rand_def)
    moreover have "quiet w2 w'"
      by (simp add: r(2) quiet_def bolt_create_def rand_def now_sec_def split_beta Let_def)
    ultimately have "quiet w w'"
      using quiet_trans by blast
    then show ?thesis
      using gate r(1) bolt_create_fits by auto
  qed
qed

lemma frame_Inr:
  assumes "frame st w = Inr (q, st', w')"
  shows "(let st1 = fst (handle_resize st w);
              c = fst (getch (snd (handle_resize st w)));
              w2 = snd (getch (snd (handle_resize st w)))
          in if is_quit c then q \<and> st' = st1 \<and> w' = w2
             else \<not> q \<and>
               (\<exists>st4 w5 st5 w6.
                  spawn_bolt (fst (pace (fst (handle_toggle c st1 w2)) (snd (handle_toggle c st1 w2))))
                     (snd (pace (fst (handle_toggle c st1 w2)) (snd (handle_toggle c st1 w2))))
                    = Inr (st4, w5)
                  \<and> update_bolts st4 w5 = Inr (st5, w6)
                  \<and> st' = advance_rain (fst (spawn_rain st5 w6))
                  \<and> w' = render st' (snd (spawn_rain st5 w6))))"
  using assms
  by (auto simp add: frame_def Let_def split_beta split: if_splits sum.splits)

lemma bolts_pass_append:
  "bolts_pass (xs @ ys) w =
     (case bolts_pass xs w of
        Inl e \<Rightarrow> Inl e
      | Inr (k1, w1) \<Rightarrow>
          (case bolts_pass ys w1 of
             Inl e \<Rightarrow> Inl e
           | Inr (k2, w2) \<Rightarrow> Inr (k1 @ k2, w2)))"
  by (induction xs arbitrary: w) (auto split: sum.splits)

lemma bolts_pass_clock:
  "bolts_pass bs w = Inr (ks, w') \<Longrightarrow> clock w' = clock w"
proof (induction bs arbitrary: w ks)
  case Nil
  then show ?case by simp
next
  case (Cons b bs)
  from Cons.prems obtain alive b' w1 where u: "bolt_update b w = Inr (alive, b', w1)"
    by (auto split: sum.splits)
  from Cons.prems u obtain ks' where
    p: "bolts_pass bs (if alive then w1 else emit (Free (segs b')) w1) = Inr (ks', w')"
    by (auto split: sum.splits)
  have "clock w1 = clock w"
    using bolt_update_Inr [OF u] by (simp add: quiet_def)
  then show ?case
    using Cons.IH [OF p] by (simp add: emit_def split: if_splits)
qed

lemma store_ok_resize: "store_ok st \<Longrightarrow> store_ok (fst (handle_resize st w))"
  by (simp add: handle_resize_eq store_ok_def)

lemma spawn_bolt_fields:
  assumes "spawn_bolt st w = Inr (st', w')"
  shows "g_rows st' = g_rows st \<and> g_cols st' = g_cols st \<and> thunder st' = thunder st
         \<and> rain st' = rain st \<and> g_resized st' = g_resized st"
  using spawn_bolt_Inr [OF assms] by auto

lemma store_ok_spawn:
  assumes "spawn_bolt st w = Inr (st', w')" "store_ok st"
  shows "store_ok st'"
  using spawn_bolt_Inr [OF assms(1)] assms(2)
  by (auto simp add: store_ok_def)

lemma store_ok_update:
  assumes "update_bolts st w = Inr (st', w')" "store_ok st"
  shows "store_ok st'"
proof -
  from update_bolts_Inr [OF assms(1)] have p: "bolts_pass (bolts st) w = Inr (bolts st', w')"
    and f: "g_rows st' = g_rows st" "g_cols st' = g_cols st"
    by simp_all
  from bolts_pass_fits [OF p, of "g_rows st" "g_cols st"] assms(2) f show ?thesis
    by (simp add: store_ok_def)
qed

lemma store_ok_fields:
  "bolts st' = bolts st \<Longrightarrow> g_rows st' = g_rows st \<Longrightarrow> g_cols st' = g_cols st \<Longrightarrow>
     store_ok st' = store_ok st"
  by (simp add: store_ok_def)

lemma frame_store_ok:
  assumes f: "frame st w = Inr (q, st', w')" and ok: "store_ok st"
  shows "store_ok st'"
proof -
  define st1 where "st1 = fst (handle_resize st w)"
  define c where "c = fst (getch (snd (handle_resize st w)))"
  define w2 where "w2 = snd (getch (snd (handle_resize st w)))"
  define st3 where "st3 = fst (pace (fst (handle_toggle c st1 w2)) (snd (handle_toggle c st1 w2)))"
  have ok1: "store_ok st1"
    using ok by (simp add: st1_def store_ok_resize)
  have ok3: "store_ok st3"
    using ok1 store_ok_fields [of st3 st1] by (simp add: st3_def)
  show ?thesis
  proof (cases "is_quit c")
    case True
    with frame_Inr [OF f] ok1 show ?thesis
      by (simp add: Let_def st1_def c_def)
  next
    case False
    with frame_Inr [OF f] obtain st4 w5 st5 w6 where
      sp: "spawn_bolt st3 (snd (pace (fst (handle_toggle c st1 w2)) (snd (handle_toggle c st1 w2))))
             = Inr (st4, w5)"
      and up: "update_bolts st4 w5 = Inr (st5, w6)"
      and st': "st' = advance_rain (fst (spawn_rain st5 w6))"
      by (auto simp add: Let_def st1_def c_def w2_def st3_def)
    have "store_ok st4"
      using store_ok_spawn [OF sp ok3] .
    then have "store_ok st5"
      using store_ok_update [OF up] by simp
    then show ?thesis
      using store_ok_fields [of st' st5] by (simp add: st')
  qed
qed

lemma startup_store_ok: "store_ok (fst (startup e w))"
  by (simp add: startup_def store_ok_def split_beta Let_def)

lemma on_winch_store_ok: "store_ok (if b then on_winch st else st) = store_ok st"
  by (simp add: on_winch_def store_ok_def)

lemma run_store_ok: "run e w k = Inr (q, st, w') \<Longrightarrow> store_ok st"
proof (induction k arbitrary: q st w')
  case 0
  then show ?case
    using startup_store_ok [of e w] by (auto simp add: prod_eq_iff)
next
  case (Suc k)
  from Suc.prems obtain q0 st0 w0' where r: "run e w k = Inr (q0, st0, w0')"
    by (auto split: sum.splits)
  have ok0: "store_ok st0"
    using Suc.IH [OF r] .
  show ?case
  proof (cases q0)
    case True
    with Suc.prems r ok0 show ?thesis
      by simp
  next
    case False
    with Suc.prems r have "frame (if winch e k then on_winch st0 else st0) w0' = Inr (q, st, w')"
      by simp
    from frame_store_ok [OF this] ok0 show ?thesis
      by (simp add: on_winch_store_ok)
  qed
qed

lemma store_ok_bolts:
  "store_ok st \<Longrightarrow> b \<in> set (bolts st) \<Longrightarrow>
     segs b \<noteq> [] \<and> int (trunk b) + 1 \<le> target_len b \<and> max_y b = g_rows st \<and> max_x b = g_cols st"
  by (auto simp add: store_ok_def list_all_iff fits_def bolt_ok_def)

section \<open>Claims about the bolt store\<close>

lemma bolts_pass_length:
  "bolts_pass bs w = Inr (ks, w') \<Longrightarrow> length ks \<le> length bs"
proof (induction bs arbitrary: w ks)
  case Nil
  then show ?case by simp
next
  case (Cons b bs)
  from Cons.prems obtain alive b' w1 where u: "bolt_update b w = Inr (alive, b', w1)"
    by (auto split: sum.splits)
  from Cons.prems u obtain ks' where
    p: "bolts_pass bs (if alive then w1 else emit (Free (segs b')) w1) = Inr (ks', w')"
    and k: "ks = (if alive then b' # ks' else ks')"
    by (auto split: sum.splits)
  from Cons.IH [OF p] k show ?case
    by simp
qed

lemma spawn_bolt_Inl: "spawn_bolt st w = Inl e \<Longrightarrow> e = DivByZero"
  by (auto simp add: spawn_bolt_def c_mod_chk_def split_beta Let_def split: if_splits sum.splits)

lemma update_bolts_total:
  assumes "store_ok st"
  shows "\<exists>st' w'. update_bolts st w = Inr (st', w')"
proof -
  have "list_all (\<lambda>b. segs b \<noteq> []) (bolts st)"
    using assms by (simp add: store_ok_def list_all_iff fits_def bolt_ok_def)
  from bolts_pass_total [OF this, of w] show ?thesis
    by (auto simp add: update_bolts_pass)
qed

lemma frame_Inl:
  assumes "frame st w = Inl e"
  shows "\<exists>st3 w4. g_rows st3 = g_rows (fst (handle_resize st w))
           \<and> g_cols st3 = g_cols (fst (handle_resize st w))
           \<and> bolts st3 = bolts (fst (handle_resize st w))
           \<and> (spawn_bolt st3 w4 = Inl e
               \<or> (\<exists>st4 w5. spawn_bolt st3 w4 = Inr (st4, w5) \<and> update_bolts st4 w5 = Inl e))"
proof -
  define st1 where "st1 = fst (handle_resize st w)"
  define c where "c = fst (getch (snd (handle_resize st w)))"
  define w2 where "w2 = snd (getch (snd (handle_resize st w)))"
  define st3 where "st3 = fst (pace (fst (handle_toggle c st1 w2)) (snd (handle_toggle c st1 w2)))"
  define w4 where "w4 = snd (pace (fst (handle_toggle c st1 w2)) (snd (handle_toggle c st1 w2)))"
  have "spawn_bolt st3 w4 = Inl e
        \<or> (\<exists>st4 w5. spawn_bolt st3 w4 = Inr (st4, w5) \<and> update_bolts st4 w5 = Inl e)"
    using assms
    by (auto simp add: frame_def Let_def split_beta st1_def c_def w2_def st3_def w4_def
        split: if_splits sum.splits)
  moreover have "g_rows st3 = g_rows st1" "g_cols st3 = g_cols st1" "bolts st3 = bolts st1"
    by (simp_all add: st3_def)
  ultimately show ?thesis
    unfolding st1_def by blast
qed

lemma frame_no_oob:
  assumes "store_ok st"
  shows "frame st w \<noteq> Inl OutOfBounds"
proof
  assume "frame st w = Inl OutOfBounds"
  from frame_Inl [OF this] obtain st3 w4 where
    f: "g_rows st3 = g_rows (fst (handle_resize st w))"
       "g_cols st3 = g_cols (fst (handle_resize st w))"
       "bolts st3 = bolts (fst (handle_resize st w))"
    and c: "spawn_bolt st3 w4 = Inl OutOfBounds
            \<or> (\<exists>st4 w5. spawn_bolt st3 w4 = Inr (st4, w5) \<and> update_bolts st4 w5 = Inl OutOfBounds)"
    by blast
  have ok3: "store_ok st3"
    using store_ok_resize [OF assms, of w] store_ok_fields [OF f(3) f(1) f(2)] by simp
  from c show False
  proof
    assume "spawn_bolt st3 w4 = Inl OutOfBounds"
    from spawn_bolt_Inl [OF this] show False
      by simp
  next
    assume "\<exists>st4 w5. spawn_bolt st3 w4 = Inr (st4, w5) \<and> update_bolts st4 w5 = Inl OutOfBounds"
    then obtain st4 w5 where sp: "spawn_bolt st3 w4 = Inr (st4, w5)"
      and up: "update_bolts st4 w5 = Inl OutOfBounds"
      by blast
    from update_bolts_total [OF store_ok_spawn [OF sp ok3], of w5] up show False
      by simp
  qed
qed

lemmas run_defs = frame_def sim0_def w0_def handle_resize_def getch_def getmaxyx_def is_quit_def
  handle_toggle_def pace_def now_sec_def sleep_sec_def UPDATE_INTERVAL_def int_of_double_def
  emit_def spawn_bolt_def rand_def RAND_MAX_def LIGHTNING_CHANCE_def c_mod_chk_def c_mod_def
  c_div_def bolt_create_def min_len_def max_len_def seg_push_def update_bolts_def
  bolts_loop.simps bolt_update_def bolt_grow_def LIGHTNING_GROWTH_DELAY_def seg_count_def
  LIGHTNING_BRANCH_CHANCE_def LIGHTNING_MAX_BRANCHES_def branch_loop.simps fork_step_def
  FORK_CHANCE_def FORK_HORIZONTAL_SPREAD_def SEGMENT_LIFESPAN_def spawn_rain_def
  rain_spawn_loop.simps advance_rain_def rain_loop.simps render_def bolt_draw_def
  draw_segment_def draw_drop_def LIGHTNING_CHARS_def A_NORMAL_def Let_def
  startup_def setup_colors_def on_winch_def

lemma run_storm: "\<exists>w'. run e0 w_storm 1 = Inr (False, st_storm, w')"
  by (simp add: run_defs e0_def w_storm_def st_storm_def bolt_storm_def)

lemma update_old:
  "update_bolts (sim0\<lparr>bolts := [] @ bolt_old # []\<rparr>) w0 =
     Inr (sim0\<lparr>bolts := []\<rparr>,
          w0\<lparr>ticks := 2, trace := [Free [\<lparr>seg_y = 0, seg_x = 20, birth = - 1\<rparr>]]\<rparr>)"
  by (simp add: run_defs bolt_old_def)

lemma spawn_storm:
  "\<exists>b w'. spawn_bolt (sim0\<lparr>thunder := True\<rparr>) w0 = Inr (sim0\<lparr>thunder := True, bolts := [b]\<rparr>, w')"
  by (simp add: run_defs)

lemma grow_steps_ok:
  "bolt_ok b \<Longrightarrow> \<exists>b'. grow_steps b ws = Inr b' \<and> bolt_ok b' \<and> target_len b' = target_len b"
proof (induction ws arbitrary: b)
  case Nil
  then show ?case by simp
next
  case (Cons w ws)
  then have "segs b \<noteq> []"
    by (simp add: bolt_ok_def)
  then obtain alive b1 w1 where u: "bolt_update b w = Inr (alive, b1, w1)"
    using bolt_update_total by blast
  have ok1: "bolt_ok b1"
    using bolt_update_ok [OF u Cons.prems] .
  have t1: "target_len b1 = target_len b"
    using bolt_update_Inr [OF u] by simp
  from Cons.IH [OF ok1] u t1 show ?case
    by auto
qed

lemma bolt_create_ok: "bolt_ok (fst (bolt_create sr sc my mx w))"
  using bolt_create_fits [of my mx sr sc w] by (simp add: fits_def)

lemma bolt_update_trunk:
  assumes "bolt_update b w = Inr (alive, b', w')"
  shows "trunk b \<le> trunk b' \<and> trunk b' \<le> Suc (trunk b)"
  using bolt_update_Inr [OF assms] by (auto split: if_splits)

text \<open>
  C2: after any sequence of calls of \<^verbatim>\<open>bolt_update\<close> on a bolt made by
  \<^verbatim>\<open>bolt_create\<close>, in any worlds, the calls return and the segments pushed by the primary
  iteration of the branch loop, counted with the bolt's first segment, are at most
  \<open>target_len\<close>, which never changes; the same holds for every bolt in the store of every
  state the program reaches; one call adds at most one primary segment and keeps the
  bound. The total number of segments can exceed \<open>target_len\<close>: on a screen of 6 rows a
  single call takes a new bolt with \<open>target_len = 3\<close> to 5 segments.
\<close>

theorem trunk_bound:
  "(\<exists>b'. grow_steps (fst (bolt_create sr sc my mx w)) ws = Inr b'
         \<and> target_len b' = target_len (fst (bolt_create sr sc my mx w))
         \<and> int (trunk b') + 1 \<le> target_len b')
   \<and> (run e wr k = Inr (q, st, w1) \<longrightarrow>
         list_all (\<lambda>b. int (trunk b) + 1 \<le> target_len b) (bolts st))
   \<and> (segs b \<noteq> [] \<and> int (trunk b) < seg_count b \<and> int (trunk b) < target_len b
         \<and> bolt_update b wu = Inr (alive, b', w') \<longrightarrow>
       segs b' \<noteq> [] \<and> int (trunk b') < seg_count b' \<and> int (trunk b') < target_len b'
         \<and> target_len b' = target_len b \<and> trunk b \<le> trunk b' \<and> trunk b' \<le> Suc (trunk b))
   \<and> (\<exists>b'. grow_steps (fst (bolt_create 0 40 6 80 (w0\<lparr>rand_src := (\<lambda>n. 2)\<rparr>)))
                [w0\<lparr>rand_src := (\<lambda>n. 2), clock := (\<lambda>n. 1)\<rparr>] = Inr b'
            \<and> target_len b' = 3 \<and> seg_count b' = 5 \<and> trunk b' = 1)"
proof -
  have a: "\<exists>b'. grow_steps (fst (bolt_create sr sc my mx w)) ws = Inr b'
         \<and> target_len b' = target_len (fst (bolt_create sr sc my mx w))
         \<and> int (trunk b') + 1 \<le> target_len b'"
    using grow_steps_ok [OF bolt_create_ok, of sr sc my mx w ws]
    by (auto simp add: bolt_ok_def)
  have b: "run e wr k = Inr (q, st, w1) \<longrightarrow>
         list_all (\<lambda>b. int (trunk b) + 1 \<le> target_len b) (bolts st)"
    using run_store_ok [of e wr k q st w1] store_ok_bolts [of st]
    by (auto simp add: list_all_iff)
  have c: "segs b \<noteq> [] \<and> int (trunk b) < seg_count b \<and> int (trunk b) < target_len b
         \<and> bolt_update b wu = Inr (alive, b', w') \<longrightarrow>
       segs b' \<noteq> [] \<and> int (trunk b') < seg_count b' \<and> int (trunk b') < target_len b'
         \<and> target_len b' = target_len b \<and> trunk b \<le> trunk b' \<and> trunk b' \<le> Suc (trunk b)"
  proof
    assume h: "segs b \<noteq> [] \<and> int (trunk b) < seg_count b \<and> int (trunk b) < target_len b
         \<and> bolt_update b wu = Inr (alive, b', w')"
    then have u: "bolt_update b wu = Inr (alive, b', w')" and ok: "bolt_ok b"
      by (simp_all add: bolt_ok_def)
    from bolt_update_ok [OF u ok] bolt_update_trunk [OF u] bolt_update_Inr [OF u]
    show "segs b' \<noteq> [] \<and> int (trunk b') < seg_count b' \<and> int (trunk b') < target_len b'
         \<and> target_len b' = target_len b \<and> trunk b \<le> trunk b' \<and> trunk b' \<le> Suc (trunk b)"
      by (simp add: bolt_ok_def)
  qed
  have d: "\<exists>b'. grow_steps (fst (bolt_create 0 40 6 80 (w0\<lparr>rand_src := (\<lambda>n. 2)\<rparr>)))
                [w0\<lparr>rand_src := (\<lambda>n. 2), clock := (\<lambda>n. 1)\<rparr>] = Inr b'
            \<and> target_len b' = 3 \<and> seg_count b' = 5 \<and> trunk b' = 1"
    by (simp add: run_defs)
  from a b c d show ?thesis
    by blast
qed

theorem trunk_bound_witness:
  "list_all (\<lambda>b. int (trunk b) + 1 \<le> target_len b) (bolts st_storm)
   \<and> bolt_update bolt_storm w0 = Inr (True, bolt_storm, w0\<lparr>ticks := 2\<rparr>)
   \<and> int (trunk bolt_storm) < target_len bolt_storm
   \<and> (\<exists>b'. grow_steps (fst (bolt_create 0 20 24 80 w_storm)) [w0, w_storm] = Inr b'
            \<and> int (trunk b') + 1 \<le> target_len b')"
proof -
  obtain w' where r: "run e0 w_storm 1 = Inr (False, st_storm, w')"
    using run_storm by blast
  have u: "bolt_update bolt_storm w0 = Inr (True, bolt_storm, w0\<lparr>ticks := 2\<rparr>)"
    by (simp add: run_defs bolt_storm_def)
  have h: "segs bolt_storm \<noteq> [] \<and> int (trunk bolt_storm) < seg_count bolt_storm
      \<and> int (trunk bolt_storm) < target_len bolt_storm"
    by (simp add: bolt_storm_def seg_count_def)
  from trunk_bound [of 0 20 24 80 w_storm "[w0, w_storm]" e0 w_storm 1 False st_storm w'
      bolt_storm w0 True bolt_storm "w0\<lparr>ticks := 2\<rparr>"] r u h
  show ?thesis
    by blast
qed

text \<open>
  C10: at the end of every iteration of the frame loop the store holds at most 3 bolts.
  Inside an iteration: the spawn block adds at most one bolt and keeps a store of at
  most 3 bolts at most 3; the compaction pass and the resize block never add a bolt;
  the other steps leave the store as it is.
\<close>

theorem bolt_count_bound:
  "(run e wr k = Inr (q, st, w1) \<longrightarrow> length (bolts st) \<le> 3)
   \<and> (length (bolts sa) \<le> 3 \<and> spawn_bolt sa wa = Inr (sa', wa') \<longrightarrow>
        length (bolts sa') \<le> 3 \<and> length (bolts sa) \<le> length (bolts sa')
        \<and> length (bolts sa') \<le> length (bolts sa) + 1)
   \<and> (update_bolts sb wb = Inr (sb', wb') \<longrightarrow> length (bolts sb') \<le> length (bolts sb))
   \<and> length (bolts (fst (handle_resize sc wc))) \<le> length (bolts sc)
   \<and> bolts (fst (handle_toggle c sc wc)) = bolts sc
   \<and> bolts (fst (pace sc wc)) = bolts sc
   \<and> bolts (fst (spawn_rain sc wc)) = bolts sc
   \<and> bolts (advance_rain sc) = bolts sc"
proof -
  have a: "run e wr k = Inr (q, st, w1) \<longrightarrow> length (bolts st) \<le> 3"
    using run_store_ok [of e wr k q st w1] by (auto simp add: store_ok_def)
  have b: "length (bolts sa) \<le> 3 \<and> spawn_bolt sa wa = Inr (sa', wa') \<longrightarrow>
        length (bolts sa') \<le> 3 \<and> length (bolts sa) \<le> length (bolts sa')
        \<and> length (bolts sa') \<le> length (bolts sa) + 1"
    using spawn_bolt_Inr [of sa wa sa' wa'] by auto
  have c: "update_bolts sb wb = Inr (sb', wb') \<longrightarrow> length (bolts sb') \<le> length (bolts sb)"
    using update_bolts_Inr [of sb wb sb' wb'] bolts_pass_length [of "bolts sb" wb "bolts sb'" wb']
    by auto
  have d: "length (bolts (fst (handle_resize sc wc))) \<le> length (bolts sc)"
    by (simp add: handle_resize_eq)
  from a b c d show ?thesis
    by simp
qed

theorem bolt_count_bound_witness:
  "length (bolts st_storm) \<le> 3
   \<and> length (bolts (sim0\<lparr>thunder := True\<rparr>)) \<le> 3
   \<and> (\<exists>b w'. spawn_bolt (sim0\<lparr>thunder := True\<rparr>) w0 = Inr (sim0\<lparr>thunder := True, bolts := [b]\<rparr>, w'))
   \<and> length (bolts (sim0\<lparr>bolts := []\<rparr>)) \<le> length (bolts (sim0\<lparr>bolts := [] @ bolt_old # []\<rparr>))"
proof -
  obtain w' where r: "run e0 w_storm 1 = Inr (False, st_storm, w')"
    using run_storm by blast
  obtain b w'' where
    s: "spawn_bolt (sim0\<lparr>thunder := True\<rparr>) w0 = Inr (sim0\<lparr>thunder := True, bolts := [b]\<rparr>, w'')"
    using spawn_storm by blast
  have l: "length (bolts (sim0\<lparr>thunder := True\<rparr>)) \<le> 3"
    by (simp add: sim0_def)
  from bolt_count_bound [of e0 w_storm 1 False st_storm w' "sim0\<lparr>thunder := True\<rparr>" w0
      "sim0\<lparr>thunder := True, bolts := [b]\<rparr>" w'' "sim0\<lparr>bolts := [] @ bolt_old # []\<rparr>" w0
      "sim0\<lparr>bolts := []\<rparr>"
      "w0\<lparr>ticks := 2, trace := [Free [\<lparr>seg_y = 0, seg_x = 20, birth = - 1\<rparr>]]\<rparr>"]
    r s l update_old
  show ?thesis
    by blast
qed

lemma bolts_pass_split:
  assumes "bolts_pass (xs @ b # ys) w = Inr (ks, w')"
  shows "\<exists>ks1 w1 alive b' w2 ks2.
            bolts_pass xs w = Inr (ks1, w1)
          \<and> bolt_update b w1 = Inr (alive, b', w2)
          \<and> bolts_pass ys (if alive then w2 else emit (Free (segs b')) w2) = Inr (ks2, w')
          \<and> ks = ks1 @ (if alive then [b'] else []) @ ks2"
proof -
  from assms obtain ks1 w1 kr where p1: "bolts_pass xs w = Inr (ks1, w1)"
    and pr: "bolts_pass (b # ys) w1 = Inr (kr, w')" and k: "ks = ks1 @ kr"
    by (auto simp add: bolts_pass_append split: sum.splits)
  from pr obtain alive b' w2 where u: "bolt_update b w1 = Inr (alive, b', w2)"
    by (auto split: sum.splits)
  from pr u obtain ks2 where
    p2: "bolts_pass ys (if alive then w2 else emit (Free (segs b')) w2) = Inr (ks2, w')"
    and kr: "kr = (if alive then b' # ks2 else ks2)"
    by (auto split: sum.splits)
  have "ks = ks1 @ (if alive then [b'] else []) @ ks2"
    using k kr by simp
  with p1 u p2 show ?thesis
    by blast
qed

lemma any_alive_last:
  assumes m: "mono clk" and ne: "ss \<noteq> []" and c: "clock w = clk"
  shows "fst (any_alive ss w) =
           (\<exists>s\<in>set ss. clk (ticks (snd (any_alive ss w)) - 1) - birth s \<le> SEGMENT_LIFESPAN)"
  using ne c
proof (induction ss arbitrary: w)
  case Nil
  then show ?case by simp
next
  case (Cons s ss)
  define w1 where "w1 = snd (now_sec w)"
  have w1: "clock w1 = clk" "ticks w1 = Suc (ticks w)"
    using Cons.prems(2) by (simp_all add: w1_def now_sec_def)
  show ?case
  proof (cases "clk (ticks w) - birth s \<le> SEGMENT_LIFESPAN")
    case True
    then show ?thesis
      using Cons.prems(2) by (auto simp add: now_sec_def)
  next
    case False
    then have e: "any_alive (s # ss) w = any_alive ss w1"
      using Cons.prems(2) by (simp add: now_sec_def w1_def)
    show ?thesis
    proof (cases "ss = []")
      case True
      with False show ?thesis
        using Cons.prems(2) by (simp add: now_sec_def)
    next
      case ne': False
      have ih: "fst (any_alive ss w1) =
           (\<exists>x\<in>set ss. clk (ticks (snd (any_alive ss w1)) - 1) - birth x \<le> SEGMENT_LIFESPAN)"
        using Cons.IH [OF ne' w1(1)] .
      have "ticks w1 \<le> ticks (snd (any_alive ss w1))"
        using any_alive_snd [of w1 ss] by simp
      moreover have "ticks (snd (any_alive ss w1)) \<noteq> ticks w1"
      proof -
        obtain x xs where "ss = x # xs"
          using ne' by (cases ss) auto
        then show ?thesis
          using any_alive_snd [of "snd (now_sec w1)" xs]
          by (auto simp add: now_sec_def split_beta)
      qed
      ultimately have "ticks w \<le> ticks (snd (any_alive ss w1)) - 1"
        using w1(2) by simp
      then have "clk (ticks w) \<le> clk (ticks (snd (any_alive ss w1)) - 1)"
        using m by (simp add: monoD)
      with False have "\<not> clk (ticks (snd (any_alive ss w1)) - 1) - birth s \<le> SEGMENT_LIFESPAN"
        by linarith
      then show ?thesis
        unfolding e by (simp add: ih)
    qed
  qed
qed

lemma bolt_update_liveness:
  assumes u: "bolt_update b w = Inr (alive, b', w')"
  shows "\<exists>w1. clock w1 = clock w \<and> ticks w1 = Suc (ticks w)
           \<and> alive = fst (any_alive (segs b') w1) \<and> w' = snd (any_alive (segs b') w1)"
proof (cases "grow_now b w")
  case False
  with u have "alive = fst (any_alive (segs b') (snd (now_sec w)))
      \<and> w' = snd (any_alive (segs b') (snd (now_sec w)))"
    by (auto simp add: bolt_update_def grow_now_def now_sec_def split_beta)
  then show ?thesis
    by (intro exI [of _ "snd (now_sec w)"]) (simp add: now_sec_def)
next
  case True
  then have ne: "segs b \<noteq> []"
    using u bolt_update_fault [of b w] by auto
  obtain b1 w1 where gr: "bolt_grow (clock w (ticks w)) b (snd (now_sec w)) = Inr (b1, w1)"
    and ro: "rand_only (snd (now_sec w)) w1"
    using bolt_grow_props [OF ne, of "clock w (ticks w)" "snd (now_sec w)"] by blast
  from u True gr have "b' = b1 \<and> alive = fst (any_alive (segs b1) w1)
      \<and> w' = snd (any_alive (segs b1) w1)"
    by (auto simp add: bolt_update_def grow_now_def now_sec_def split_beta)
  moreover have "clock w1 = clock w" "ticks w1 = Suc (ticks w)"
    using ro by (simp_all add: rand_only_def quiet_def now_sec_def)
  ultimately show ?thesis
    by (intro exI [of _ w1]) simp
qed

lemma bolt_update_last_reading:
  assumes u: "bolt_update b w = Inr (alive, b', w')" and m: "mono (clock w)"
    and ne: "segs b \<noteq> []"
  shows "(\<not> alive) =
     (\<forall>s\<in>set (segs b'). SEGMENT_LIFESPAN < clock w (ticks w' - 1) - birth s)"
proof -
  from bolt_update_liveness [OF u] obtain w1 where w1: "clock w1 = clock w"
    and a: "alive = fst (any_alive (segs b') w1)" and w': "w' = snd (any_alive (segs b') w1)"
    by blast
  have ne': "segs b' \<noteq> []"
    using bolt_update_Inr [OF u] ne by auto
  from any_alive_last [OF m ne' w1] show ?thesis
    by (auto simp add: a w' not_le)
qed

section \<open>Raindrop spawning, rendering and the whole frame\<close>

lemma rain_spawn_loop_props:
  "rain_spawn_loop i n mn mx cols rv w = (rv', w') \<Longrightarrow>
     (\<exists>new. rv' = rv @ new \<and> list_all (fresh cols) new) \<and> rand_only w w'"
proof (induction "nat (n - i)" arbitrary: i rv w)
  case 0
  then have "rain_spawn_loop i n mn mx cols rv w = (rv, w)"
    by (subst rain_spawn_loop.simps) simp
  with 0 show ?case
    by auto
next
  case (Suc m)
  then have lt: "i < n"
    by simp
  define w1 where "w1 = snd (rand w)"
  define w2 where "w2 = snd (rand w1)"
  define w3 where "w3 = snd (rand w2)"
  define d where "d = \<lparr>drop_x = c_mod (fst (rand w)) (if cols > 1 then cols else 1), drop_y = 0,
      speed = mn + real_of_int (fst (rand w1)) / RAND_MAX * (mx - mn),
      glyph = ''|.`'' ! nat (c_mod (fst (rand w2)) 3)\<rparr>"
  have step: "rain_spawn_loop i n mn mx cols rv w = rain_spawn_loop (i + 1) n mn mx cols (rv @ [d]) w3"
    using lt by (subst rain_spawn_loop.simps) (simp add: Let_def d_def w1_def w2_def w3_def)
  have m: "m = nat (n - (i + 1))"
    using Suc.hyps(2) by simp
  have prem: "rain_spawn_loop (i + 1) n mn mx cols (rv @ [d]) w3 = (rv', w')"
    using Suc.prems step by simp
  from Suc.hyps(1) [OF m prem] obtain new where
    n: "rv' = (rv @ [d]) @ new" "list_all (fresh cols) new" and ro: "rand_only w3 w'"
    by blast
  have "0 \<le> fst (rand w) mod (if cols > 1 then cols else 1)"
    by (intro pos_mod_sign) simp
  moreover have "fst (rand w) mod (if cols > 1 then cols else 1) < (if cols > 1 then cols else 1)"
    by (intro pos_mod_bound) simp
  ultimately have fd: "fresh cols d"
    by (simp add: fresh_def d_def c_mod_nonneg)
  have "rand_only w w3"
    by (simp add: w3_def w2_def w1_def rand_only_rand2)
  then have "rand_only w w'"
    using ro rand_only_trans by blast
  moreover have "rv' = rv @ (d # new)" "list_all (fresh cols) (d # new)"
    using n fd by simp_all
  ultimately show ?case
    by blast
qed

lemma rain_spawn_loop_fst:
  "\<exists>new. fst (rain_spawn_loop i n mn mx cols rv w) = rv @ new \<and> list_all (fresh cols) new"
  using rain_spawn_loop_props [of i n mn mx cols rv w] by (metis prod.collapse)

lemma rain_spawn_loop_snd:
  "rand_only w w1 \<Longrightarrow> quiet w (snd (rain_spawn_loop i n mn mx cols rv w1))"
  using rain_spawn_loop_props [of i n mn mx cols rv w1] rand_only_trans rand_only_quiet
  by (metis prod.collapse)

lemma spawn_rain_rain:
  "\<exists>new. rain (fst (spawn_rain st w)) = rain st @ new \<and> list_all (fresh (g_cols st)) new"
  by (auto simp add: spawn_rain_def split_beta Let_def intro!: rain_spawn_loop_fst)

lemma spawn_rain_quiet: "quiet w (snd (spawn_rain st w))"
  by (auto simp add: spawn_rain_def split_beta Let_def rand_only_quiet rand_only_rand2
      intro!: rain_spawn_loop_snd)

lemma drawn_cell_in: "list_all (cell_in rows cols) (drawn_cell age a rows cols s)"
  by (simp add: drawn_cell_def cell_in_def split: option.splits)

lemma bolt_draw_eq:
  "bolt_draw b a rows cols w =
     w\<lparr>ticks := Suc (ticks w),
       trace := trace w @
         concat (map (\<lambda>s. drawn_cell (clock w (ticks w) - birth s) a rows cols s) (segs b))\<rparr>"
  by (simp add: bolt_draw_def now_sec_def fold_draw_segment)

lemma fold_bolt_draw:
  "\<exists>cells. fold (\<lambda>b. bolt_draw b a rows cols) bs w = w\<lparr>ticks := ticks w + length bs,
       trace := trace w @ cells\<rparr> \<and> list_all (cell_in rows cols) cells"
proof (induction bs arbitrary: w)
  case Nil
  show ?case by (intro exI [of _ "[]"]) simp
next
  case (Cons b bs)
  define cs where
    "cs = concat (map (\<lambda>s. drawn_cell (clock w (ticks w) - birth s) a rows cols s) (segs b))"
  define w1 where "w1 = bolt_draw b a rows cols w"
  have w1e: "w1 = w\<lparr>ticks := Suc (ticks w), trace := trace w @ cs\<rparr>"
    by (simp add: w1_def cs_def bolt_draw_eq)
  obtain cells where c: "fold (\<lambda>b. bolt_draw b a rows cols) bs w1 =
      w1\<lparr>ticks := ticks w1 + length bs, trace := trace w1 @ cells\<rparr>"
    "list_all (cell_in rows cols) cells"
    using Cons [of w1] by blast
  have "fold (\<lambda>b. bolt_draw b a rows cols) (b # bs) w =
          w1\<lparr>ticks := ticks w1 + length bs, trace := trace w1 @ cells\<rparr>"
    using c(1) by (simp add: w1_def)
  also have "\<dots> = w\<lparr>ticks := ticks w + length (b # bs), trace := trace w @ (cs @ cells)\<rparr>"
    by (simp add: w1e)
  finally have e: "fold (\<lambda>b. bolt_draw b a rows cols) (b # bs) w =
      w\<lparr>ticks := ticks w + length (b # bs), trace := trace w @ (cs @ cells)\<rparr>" .
  have "list_all (cell_in rows cols) cs"
    by (simp add: cs_def list_all_iff drawn_cell_in [unfolded list_all_iff])
  with c(2) e show ?case
    by (intro exI [of _ "cs @ cells"]) simp
qed

lemma draw_drop_cell:
  "\<exists>cells. draw_drop st d w = w\<lparr>trace := trace w @ cells\<rparr>
      \<and> list_all (cell_in (g_rows st) (g_cols st)) cells"
proof (cases "int_of_double (drop_y d) \<ge> 0 \<and> int_of_double (drop_y d) < g_rows st
               \<and> drop_x d \<ge> 0 \<and> drop_x d < g_cols st")
  case True
  then show ?thesis
    by (intro exI [of _ "[Mvaddch (int_of_double (drop_y d)) (drop_x d) (glyph d)
          (if thunder st then (rain_attr st)\<lparr>bold := True\<rparr>
           else if speed d < 0.8 then (rain_attr st)\<lparr>dim := True\<rparr> else rain_attr st)]"])
      (simp add: draw_drop_def Let_def emit_def cell_in_def)
next
  case False
  then show ?thesis
    by (intro exI [of _ "[]"]) (auto simp add: draw_drop_def Let_def)
qed

lemma fold_draw_drop:
  "\<exists>cells. fold (draw_drop st) ds w = w\<lparr>trace := trace w @ cells\<rparr>
      \<and> list_all (cell_in (g_rows st) (g_cols st)) cells"
proof (induction ds arbitrary: w)
  case Nil
  show ?case by (intro exI [of _ "[]"]) simp
next
  case (Cons d ds)
  obtain c1 where c1: "draw_drop st d w = w\<lparr>trace := trace w @ c1\<rparr>"
    "list_all (cell_in (g_rows st) (g_cols st)) c1"
    using draw_drop_cell by blast
  obtain c2 where c2: "fold (draw_drop st) ds (draw_drop st d w) =
      (draw_drop st d w)\<lparr>trace := trace (draw_drop st d w) @ c2\<rparr>"
    "list_all (cell_in (g_rows st) (g_cols st)) c2"
    using Cons [of "draw_drop st d w"] by blast
  have "fold (draw_drop st) (d # ds) w = w\<lparr>trace := trace w @ (c1 @ c2)\<rparr>"
    using c2(1) by (simp add: c1(1))
  with c1(2) c2(2) show ?case
    by (intro exI [of _ "c1 @ c2"]) simp
qed

lemma render_trace:
  "\<exists>cells. trace (render st w) = trace w @ Erase # cells @ [Doupdate, Refresh]
      \<and> list_all (cell_in (g_rows st) (g_cols st)) cells"
proof -
  define w1 where "w1 = emit Erase w"
  obtain c1 where c1:
    "fold (\<lambda>b. bolt_draw b (light_attr st) (g_rows st) (g_cols st)) (bolts st) w1 =
       w1\<lparr>ticks := ticks w1 + length (bolts st), trace := trace w1 @ c1\<rparr>"
    "list_all (cell_in (g_rows st) (g_cols st)) c1"
    using fold_bolt_draw by blast
  define w2 where "w2 = w1\<lparr>ticks := ticks w1 + length (bolts st), trace := trace w1 @ c1\<rparr>"
  obtain c2 where c2: "fold (draw_drop st) (rain st) w2 = w2\<lparr>trace := trace w2 @ c2\<rparr>"
    "list_all (cell_in (g_rows st) (g_cols st)) c2"
    using fold_draw_drop by blast
  have "render st w = emit Refresh (emit Doupdate (w2\<lparr>trace := trace w2 @ c2\<rparr>))"
    using c1(1) c2(1) by (simp add: render_def Let_def w1_def w2_def)
  then have "trace (render st w) = trace w @ Erase # (c1 @ c2) @ [Doupdate, Refresh]"
    by (simp add: emit_def w2_def w1_def)
  with c1(2) c2(2) show ?thesis
    by (intro exI [of _ "c1 @ c2"]) simp
qed

lemma pace_clock: "clock (snd (pace st w)) = clock w"
  by (simp add: pace_def now_sec_def sleep_sec_def emit_def split_beta Let_def)

lemma handle_toggle_clock: "clock (snd (handle_toggle c st w)) = clock w"
  by (simp add: handle_toggle_def emit_def)

lemma handle_resize_key:
  "clock (snd (handle_resize st w)) = clock w"
  "fst (getch (snd (handle_resize st w))) = key_src w (key_used w)"
  "clock (snd (getch (snd (handle_resize st w)))) = clock w"
  by (simp_all add: handle_resize_eq getch_def)

lemma handle_resize_thunder: "thunder (fst (handle_resize st w)) = thunder st"
  by (simp add: handle_resize_eq)

lemma frame_go:
  assumes f: "frame st w = Inr (False, st', w')"
  shows "\<exists>st3 w4 st4 w5 w6 w7 new.
       clock w4 = clock w
     \<and> bolts st3 = bolts (fst (handle_resize st w))
     \<and> rain st3 = rain (fst (handle_resize st w))
     \<and> g_rows st3 = g_rows (fst (handle_resize st w))
     \<and> g_cols st3 = g_cols (fst (handle_resize st w))
     \<and> g_resized st3 = g_resized (fst (handle_resize st w))
     \<and> thunder st3 = (if key_src w (key_used w) = 116 \<or> key_src w (key_used w) = 84
                       then \<not> thunder st else thunder st)
     \<and> spawn_bolt st3 w4 = Inr (st4, w5)
     \<and> bolts_pass (bolts st4) w5 = Inr (bolts st', w6)
     \<and> thunder st' = thunder st3 \<and> g_rows st' = g_rows st3 \<and> g_cols st' = g_cols st3
     \<and> g_resized st' = g_resized st3
     \<and> list_all (fresh (g_cols st3)) new
     \<and> rain st' = filter (on_screen (g_rows st3)) (map advance (rain st3 @ new))
     \<and> w' = render st' w7"
proof -
  define st1 where "st1 = fst (handle_resize st w)"
  define c where "c = fst (getch (snd (handle_resize st w)))"
  define w2 where "w2 = snd (getch (snd (handle_resize st w)))"
  define st3 where "st3 = fst (pace (fst (handle_toggle c st1 w2)) (snd (handle_toggle c st1 w2)))"
  define w4 where "w4 = snd (pace (fst (handle_toggle c st1 w2)) (snd (handle_toggle c st1 w2)))"
  have nq: "\<not> is_quit c"
    using frame_Inr [OF f] by (auto simp add: Let_def c_def split: if_splits)
  with frame_Inr [OF f] obtain st4 w5 st5 w6 where
    sp: "spawn_bolt st3 w4 = Inr (st4, w5)"
    and up: "update_bolts st4 w5 = Inr (st5, w6)"
    and st': "st' = advance_rain (fst (spawn_rain st5 w6))"
    and w': "w' = render st' (snd (spawn_rain st5 w6))"
    by (auto simp add: Let_def st1_def c_def w2_def st3_def w4_def)
  have ck: "clock w4 = clock w"
    by (simp add: w4_def pace_clock handle_toggle_clock w2_def handle_resize_key)
  have f3: "bolts st3 = bolts st1" "rain st3 = rain st1" "g_rows st3 = g_rows st1"
    "g_cols st3 = g_cols st1" "g_resized st3 = g_resized st1"
    by (simp_all add: st3_def)
  have th3: "thunder st3 = (if key_src w (key_used w) = 116 \<or> key_src w (key_used w) = 84
                       then \<not> thunder st else thunder st)"
    by (simp add: st3_def st1_def c_def handle_resize_key handle_resize_thunder)
  note f4 = spawn_bolt_fields [OF sp]
  note f5 = update_bolts_Inr [OF up]
  obtain new where new: "rain (fst (spawn_rain st5 w6)) = rain st5 @ new"
    "list_all (fresh (g_cols st5)) new"
    using spawn_rain_rain by blast
  have r: "rain st' = filter (on_screen (g_rows st3)) (map advance (rain st3 @ new))"
    using f4 f5 new(1) by (simp add: st' advance_rain_filter)
  have p: "bolts_pass (bolts st4) w5 = Inr (bolts st', w6)"
    using f5 by (simp add: st')
  have g: "thunder st' = thunder st3" "g_rows st' = g_rows st3" "g_cols st' = g_cols st3"
    "g_resized st' = g_resized st3"
    using f4 f5 by (simp_all add: st')
  have n: "list_all (fresh (g_cols st3)) new"
    using new(2) f4 f5 by simp
  from ck f3 th3 sp p g n r w' show ?thesis
    unfolding st1_def by blast
qed

lemma frame_quit:
  assumes "frame st w = Inr (True, st', w')"
  shows "st' = fst (handle_resize st w)"
  using frame_Inr [OF assms] by (auto simp add: Let_def split: if_splits)

lemma fresh_advance:
  assumes "list_all (fresh cols) new"
  shows "list_all (\<lambda>d. int_of_double (drop_y d) < rows \<and> drop_y d = speed d
                       \<and> 0 \<le> drop_x d \<and> drop_x d < max 1 cols)
           (filter (on_screen rows) (map advance new))"
  using assms by (auto simp add: list_all_iff fresh_def on_screen_def advance_def)

lemma resized_frame:
  assumes r: "g_resized st" and f: "frame st w = Inr (q, st', w')"
  shows "g_rows st' = fst (size_src w (size_used w))
       \<and> g_cols st' = snd (size_src w (size_used w)) \<and> \<not> g_resized st'
       \<and> length (bolts st') \<le> 1
       \<and> list_all (\<lambda>b. max_y b = g_rows st' \<and> max_x b = g_cols st') (bolts st')
       \<and> list_all (\<lambda>d. int_of_double (drop_y d) < g_rows st' \<and> drop_y d = speed d
                         \<and> 0 \<le> drop_x d \<and> drop_x d < max 1 (g_cols st')) (rain st')
       \<and> (\<not> q \<longrightarrow> (\<exists>(w7::world) cells. trace w' = trace w7 @ Erase # cells @ [Doupdate, Refresh]
                        \<and> list_all (cell_in (g_rows st') (g_cols st')) cells))"
proof (cases q)
  case True
  with f have "st' = fst (handle_resize st w)"
    using frame_quit by simp
  with r True show ?thesis
    by (simp add: handle_resize_eq)
next
  case False
  with f have f': "frame st w = Inr (False, st', w')"
    by simp
  define st1 where "st1 = fst (handle_resize st w)"
  have s1: "bolts st1 = []" "rain st1 = []" "g_rows st1 = fst (size_src w (size_used w))"
    "g_cols st1 = snd (size_src w (size_used w))" "\<not> g_resized st1"
    using r by (simp_all add: st1_def handle_resize_eq)
  from frame_go [OF f'] obtain st3 w4 st4 w5 w6 w7 new where
    f3: "bolts st3 = bolts st1" "rain st3 = rain st1" "g_rows st3 = g_rows st1"
        "g_cols st3 = g_cols st1" "g_resized st3 = g_resized st1"
    and sp: "spawn_bolt st3 w4 = Inr (st4, w5)"
    and p: "bolts_pass (bolts st4) w5 = Inr (bolts st', w6)"
    and g: "g_rows st' = g_rows st3" "g_cols st' = g_cols st3" "g_resized st' = g_resized st3"
    and n: "list_all (fresh (g_cols st3)) new"
    and rn: "rain st' = filter (on_screen (g_rows st3)) (map advance (rain st3 @ new))"
    and w': "w' = render st' w7"
    unfolding st1_def by blast
  have e3: "bolts st3 = []"
    using f3(1) s1(1) by simp
  have b4: "length (bolts st4) \<le> 1 \<and> list_all (fits (g_rows st3) (g_cols st3)) (bolts st4)"
  proof -
    from spawn_bolt_Inr [OF sp] have "st4 = st3
        \<or> (\<exists>b. st4 = st3\<lparr>bolts := bolts st3 @ [b]\<rparr> \<and> fits (g_rows st3) (g_cols st3) b)"
      by blast
    then show ?thesis
    proof
      assume "st4 = st3"
      then show ?thesis
        by (simp add: e3)
    next
      assume "\<exists>b. st4 = st3\<lparr>bolts := bolts st3 @ [b]\<rparr> \<and> fits (g_rows st3) (g_cols st3) b"
      then obtain b where "bolts st4 = bolts st3 @ [b]" "fits (g_rows st3) (g_cols st3) b"
        by auto
      then show ?thesis
        by (simp add: e3)
    qed
  qed
  have gr: "g_rows st' = fst (size_src w (size_used w))"
    using g(1) f3(3) s1(3) by simp
  have gc: "g_cols st' = snd (size_src w (size_used w))"
    using g(2) f3(4) s1(4) by simp
  have g3: "g_rows st3 = g_rows st'" "g_cols st3 = g_cols st'"
    using g(1) g(2) by simp_all
  have nr: "\<not> g_resized st'"
    using g(3) f3(5) s1(5) by simp
  have pf: "list_all (fits (g_rows st') (g_cols st')) (bolts st') \<and> length (bolts st') \<le> length (bolts st4)"
    using bolts_pass_fits [OF p, of "g_rows st3" "g_cols st3"] b4 unfolding g3 by blast
  have b1: "length (bolts st') \<le> 1"
    using pf b4 by linarith
  have b2: "list_all (\<lambda>b. max_y b = g_rows st' \<and> max_x b = g_cols st') (bolts st')"
    using pf by (simp add: list_all_iff fits_def)
  have r0: "rain st' = filter (on_screen (g_rows st')) (map advance new)"
    using rn f3(2) s1(2) unfolding g3 by simp
  have rn': "list_all (\<lambda>d. int_of_double (drop_y d) < g_rows st' \<and> drop_y d = speed d
                         \<and> 0 \<le> drop_x d \<and> drop_x d < max 1 (g_cols st')) (rain st')"
    using fresh_advance [OF n, of "g_rows st'"] unfolding g3 r0 .
  obtain cells where cl: "trace (render st' w7) = trace w7 @ Erase # cells @ [Doupdate, Refresh]"
    "list_all (cell_in (g_rows st') (g_cols st')) cells"
    using render_trace [of st' w7] by (elim exE conjE)
  have rd: "\<exists>(w7::world) cells. trace w' = trace w7 @ Erase # cells @ [Doupdate, Refresh]
                        \<and> list_all (cell_in (g_rows st') (g_cols st')) cells"
    by (rule exI [of _ w7], rule exI [of _ cells]) (simp add: w' cl)
  from gr gc nr b1 b2 rn' rd show ?thesis
    by blast
qed

text \<open>
  C7: when a resize is pending, the resize block clears the flag, reads the screen size
  again, clears the screen, empties the raindrop store, frees the segments of every bolt
  and empties the bolt store; it never changes the thunderstorm flag, and without a
  pending resize it does nothing. The rest of that frame works with the new size: the
  only bolt it can hold was spawned with the new bounds, every raindrop was spawned in
  a column of the new width and has passed the retire test against the new height, and
  every cell drawn lies inside the new screen. In every state the program reaches, the
  bolts of the store have the bounds of the current screen.
\<close>

theorem resize_resets:
  "(g_resized st \<longrightarrow>
      handle_resize st w =
        (st\<lparr>g_resized := False, g_rows := fst (size_src w (size_used w)),
            g_cols := snd (size_src w (size_used w)), rain := [], bolts := []\<rparr>,
         w\<lparr>size_used := Suc (size_used w),
           trace := trace w @ [Endwin, Refresh, Clear] @ map (\<lambda>b. Free (segs b)) (bolts st)\<rparr>))
   \<and> (\<not> g_resized st \<longrightarrow> handle_resize st w = (st, w))
   \<and> thunder (fst (handle_resize st w)) = thunder st
   \<and> (g_resized sx \<and> frame sx wx = Inr (q, sx', wx') \<longrightarrow>
        g_rows sx' = fst (size_src wx (size_used wx))
        \<and> g_cols sx' = snd (size_src wx (size_used wx)) \<and> \<not> g_resized sx'
        \<and> length (bolts sx') \<le> 1
        \<and> list_all (\<lambda>b. max_y b = g_rows sx' \<and> max_x b = g_cols sx') (bolts sx')
        \<and> list_all (\<lambda>d. int_of_double (drop_y d) < g_rows sx' \<and> drop_y d = speed d
                          \<and> 0 \<le> drop_x d \<and> drop_x d < max 1 (g_cols sx')) (rain sx')
        \<and> (\<not> q \<longrightarrow> (\<exists>(w7::world) cells. trace wx' = trace w7 @ Erase # cells @ [Doupdate, Refresh]
                         \<and> list_all (cell_in (g_rows sx') (g_cols sx')) cells)))
   \<and> (run e wr k = Inr (qr, sr, wr') \<longrightarrow>
        list_all (\<lambda>b. max_y b = g_rows sr \<and> max_x b = g_cols sr) (bolts sr))"
proof -
  have a: "g_resized st \<longrightarrow>
      handle_resize st w =
        (st\<lparr>g_resized := False, g_rows := fst (size_src w (size_used w)),
            g_cols := snd (size_src w (size_used w)), rain := [], bolts := []\<rparr>,
         w\<lparr>size_used := Suc (size_used w),
           trace := trace w @ [Endwin, Refresh, Clear] @ map (\<lambda>b. Free (segs b)) (bolts st)\<rparr>)"
    by (simp add: handle_resize_eq)
  have b: "\<not> g_resized st \<longrightarrow> handle_resize st w = (st, w)"
    by (simp add: handle_resize_eq)
  have c: "thunder (fst (handle_resize st w)) = thunder st"
    by (rule handle_resize_thunder)
  have d: "g_resized sx \<and> frame sx wx = Inr (q, sx', wx') \<longrightarrow>
        g_rows sx' = fst (size_src wx (size_used wx))
        \<and> g_cols sx' = snd (size_src wx (size_used wx)) \<and> \<not> g_resized sx'
        \<and> length (bolts sx') \<le> 1
        \<and> list_all (\<lambda>b. max_y b = g_rows sx' \<and> max_x b = g_cols sx') (bolts sx')
        \<and> list_all (\<lambda>d. int_of_double (drop_y d) < g_rows sx' \<and> drop_y d = speed d
                          \<and> 0 \<le> drop_x d \<and> drop_x d < max 1 (g_cols sx')) (rain sx')
        \<and> (\<not> q \<longrightarrow> (\<exists>(w7::world) cells. trace wx' = trace w7 @ Erase # cells @ [Doupdate, Refresh]
                         \<and> list_all (cell_in (g_rows sx') (g_cols sx')) cells))"
    using resized_frame [of sx wx q sx' wx'] by blast
  have e: "run e wr k = Inr (qr, sr, wr') \<longrightarrow>
        list_all (\<lambda>b. max_y b = g_rows sr \<and> max_x b = g_cols sr) (bolts sr)"
    using run_store_ok [of e wr k qr sr wr'] store_ok_bolts [of sr]
    by (auto simp add: list_all_iff)
  from a b c d e show ?thesis
    by blast
qed

lemma frame_resized:
  "\<exists>st' w'. frame (st_storm\<lparr>g_resized := True\<rparr>) (w0\<lparr>size_src := (\<lambda>n. (30, 100))\<rparr>)
      = Inr (False, st', w')"
  by (simp add: run_defs st_storm_def bolt_storm_def)

theorem resize_resets_witness:
  "g_resized (st_storm\<lparr>g_resized := True\<rparr>)
   \<and> (\<exists>st' w'. frame (st_storm\<lparr>g_resized := True\<rparr>) (w0\<lparr>size_src := (\<lambda>n. (30, 100))\<rparr>)
                  = Inr (False, st', w')
        \<and> g_rows st' = 30 \<and> g_cols st' = 100 \<and> length (bolts st') \<le> 1)
   \<and> bolts (fst (handle_resize (st_storm\<lparr>g_resized := True\<rparr>) w0)) = []
   \<and> rain (fst (handle_resize (st_storm\<lparr>g_resized := True\<rparr>) w0)) = []
   \<and> list_all (\<lambda>b. max_y b = g_rows st_storm \<and> max_x b = g_cols st_storm) (bolts st_storm)"
proof -
  obtain st' w' where
    f: "frame (st_storm\<lparr>g_resized := True\<rparr>) (w0\<lparr>size_src := (\<lambda>n. (30, 100))\<rparr>) = Inr (False, st', w')"
    using frame_resized by blast
  obtain wr' where r: "run e0 w_storm 1 = Inr (False, st_storm, wr')"
    using run_storm by blast
  have g: "g_resized (st_storm\<lparr>g_resized := True\<rparr>)"
    by simp
  note t = resize_resets [where st = "st_storm\<lparr>g_resized := True\<rparr>" and w = w0
      and sx = "st_storm\<lparr>g_resized := True\<rparr>" and wx = "w0\<lparr>size_src := (\<lambda>n. (30, 100))\<rparr>"
      and q = False and sx' = st' and wx' = w' and e = e0 and wr = w_storm and k = 1
      and qr = False and sr = st_storm and wr' = wr']
  from t f g have d: "g_rows st' = fst (size_src (w0\<lparr>size_src := (\<lambda>n. (30, 100))\<rparr>)
        (size_used (w0\<lparr>size_src := (\<lambda>n. (30, 100))\<rparr>)))
      \<and> g_cols st' = snd (size_src (w0\<lparr>size_src := (\<lambda>n. (30, 100))\<rparr>)
        (size_used (w0\<lparr>size_src := (\<lambda>n. (30, 100))\<rparr>)))
      \<and> length (bolts st') \<le> 1"
    by blast
  from t g have h: "handle_resize (st_storm\<lparr>g_resized := True\<rparr>) w0 =
        (st_storm\<lparr>g_resized := True\<rparr>\<lparr>g_resized := False, g_rows := fst (size_src w0 (size_used w0)),
            g_cols := snd (size_src w0 (size_used w0)), rain := [], bolts := []\<rparr>,
         w0\<lparr>size_used := Suc (size_used w0),
           trace := trace w0 @ [Endwin, Refresh, Clear]
             @ map (\<lambda>b. Free (segs b)) (bolts (st_storm\<lparr>g_resized := True\<rparr>))\<rparr>)"
    by blast
  from t r have l:
    "list_all (\<lambda>b. max_y b = g_rows st_storm \<and> max_x b = g_cols st_storm) (bolts st_storm)"
    by blast
  from d have d': "g_rows st' = 30 \<and> g_cols st' = 100 \<and> length (bolts st') \<le> 1"
    by simp
  have "bolts (fst (handle_resize (st_storm\<lparr>g_resized := True\<rparr>) w0)) = []"
    "rain (fst (handle_resize (st_storm\<lparr>g_resized := True\<rparr>) w0)) = []"
    by (simp_all add: h)
  with f g d' l show ?thesis
    by blast
qed

lemma bolts_pass_head:
  assumes "bolts_pass (b # bs) w = Inr (ks, w')"
  shows "\<exists>alive b' w1 ks'. bolt_update b w = Inr (alive, b', w1)
      \<and> (\<not> alive) = (\<forall>i<length (segs b').
             SEGMENT_LIFESPAN < clock w (Suc (ticks w) + i) - birth (segs b' ! i))
      \<and> bolts_pass bs (if alive then w1 else emit (Free (segs b')) w1) = Inr (ks', w')
      \<and> ks = (if alive then b' # ks' else ks')"
proof -
  from assms obtain alive b' w1 where u: "bolt_update b w = Inr (alive, b', w1)"
    by (auto split: sum.splits)
  from assms u obtain ks' where
    p: "bolts_pass bs (if alive then w1 else emit (Free (segs b')) w1) = Inr (ks', w')"
    and k: "ks = (if alive then b' # ks' else ks')"
    by (auto split: sum.splits)
  have "(\<not> alive) = (\<forall>i<length (segs b').
             SEGMENT_LIFESPAN < clock w (Suc (ticks w) + i) - birth (segs b' ! i))"
    using bolt_update_Inr [OF u] by (simp add: expired_iff)
  with u p k show ?thesis
    by blast
qed

lemma frame_thunder_off:
  assumes f: "frame st w = Inr (False, st', w')"
  shows "thunder st' = (if key_src w (key_used w) = 116 \<or> key_src w (key_used w) = 84
                        then \<not> thunder st else thunder st)
     \<and> (\<not> thunder st' \<longrightarrow>
          length (bolts st') \<le> length (bolts st)
          \<and> (\<exists>(w5::world) w6. clock w5 = clock w
                \<and> bolts_pass (bolts (fst (handle_resize st w))) w5 = Inr (bolts st', w6)))"
proof -
  from frame_go [OF f] obtain st3 w4 st4 w5 w6 where
    ck: "clock w4 = clock w"
    and b3: "bolts st3 = bolts (fst (handle_resize st w))"
    and th3: "thunder st3 = (if key_src w (key_used w) = 116 \<or> key_src w (key_used w) = 84
                       then \<not> thunder st else thunder st)"
    and sp: "spawn_bolt st3 w4 = Inr (st4, w5)"
    and p: "bolts_pass (bolts st4) w5 = Inr (bolts st', w6)"
    and th: "thunder st' = thunder st3"
    by blast
  have a: "thunder st' = (if key_src w (key_used w) = 116 \<or> key_src w (key_used w) = 84
                        then \<not> thunder st else thunder st)"
    using th th3 by simp
  have b: "\<not> thunder st' \<longrightarrow>
          length (bolts st') \<le> length (bolts st)
          \<and> (\<exists>(w5::world) w6. clock w5 = clock w
                \<and> bolts_pass (bolts (fst (handle_resize st w))) w5 = Inr (bolts st', w6))"
  proof
    assume "\<not> thunder st'"
    then have off: "\<not> thunder st3"
      using th by simp
    from spawn_bolt_off [OF off, of w4] sp have e: "st4 = st3" "w5 = w4"
      by simp_all
    have p': "bolts_pass (bolts (fst (handle_resize st w))) w4 = Inr (bolts st', w6)"
      using p by (simp add: e b3)
    have "length (bolts st') \<le> length (bolts (fst (handle_resize st w)))"
      using bolts_pass_length [OF p'] .
    moreover have "length (bolts (fst (handle_resize st w))) \<le> length (bolts st)"
      by (simp add: handle_resize_eq)
    ultimately have l: "length (bolts st') \<le> length (bolts st)"
      by linarith
    have "\<exists>(w5::world) w6. clock w5 = clock w
                \<and> bolts_pass (bolts (fst (handle_resize st w))) w5 = Inr (bolts st', w6)"
      by (rule exI [of _ w4], rule exI [of _ w6]) (simp add: ck p')
    with l show "length (bolts st') \<le> length (bolts st)
          \<and> (\<exists>(w5::world) w6. clock w5 = clock w
                \<and> bolts_pass (bolts (fst (handle_resize st w))) w5 = Inr (bolts st', w6))"
      by simp
  qed
  from a b show ?thesis
    by simp
qed

lemma fold_bolt_draw_eq:
  "fold (\<lambda>b. bolt_draw b a rows cols) bs w =
     w\<lparr>ticks := ticks w + length bs,
       trace := trace w @ bolts_cells a rows cols (clock w) (ticks w) bs\<rparr>"
proof (induction bs arbitrary: w)
  case Nil
  show ?case by simp
next
  case (Cons b bs)
  define w1 where "w1 = bolt_draw b a rows cols w"
  have w1e: "w1 = w\<lparr>ticks := Suc (ticks w), trace := trace w @
      concat (map (\<lambda>s. drawn_cell (clock w (ticks w) - birth s) a rows cols s) (segs b))\<rparr>"
    by (simp add: w1_def bolt_draw_eq)
  have "fold (\<lambda>b. bolt_draw b a rows cols) (b # bs) w = fold (\<lambda>b. bolt_draw b a rows cols) bs w1"
    by (simp add: w1_def)
  also have "\<dots> = w1\<lparr>ticks := ticks w1 + length bs,
       trace := trace w1 @ bolts_cells a rows cols (clock w1) (ticks w1) bs\<rparr>"
    by (rule Cons)
  also have "\<dots> = w\<lparr>ticks := ticks w + length (b # bs),
       trace := trace w @ bolts_cells a rows cols (clock w) (ticks w) (b # bs)\<rparr>"
    by (simp add: w1e)
  finally show ?case .
qed

lemma draw_drop_eq: "draw_drop st d w = w\<lparr>trace := trace w @ drop_cells st d\<rparr>"
  by (simp add: draw_drop_def drop_cells_def Let_def emit_def)

lemma fold_draw_drop_eq:
  "fold (draw_drop st) ds w = w\<lparr>trace := trace w @ concat (map (drop_cells st) ds)\<rparr>"
  by (induction ds arbitrary: w) (simp_all add: draw_drop_eq)

lemma render_eq:
  "render st w =
     w\<lparr>ticks := ticks w + length (bolts st),
       trace := trace w @ Erase #
         bolts_cells (light_attr st) (g_rows st) (g_cols st) (clock w) (ticks w) (bolts st)
         @ concat (map (drop_cells st) (rain st)) @ [Doupdate, Refresh]\<rparr>"
  by (simp add: render_def Let_def fold_bolt_draw_eq fold_draw_drop_eq emit_def)

lemma update_bolts_state:
  assumes "update_bolts st w = Inr (st', w')"
  shows "st' = st\<lparr>bolts := bolts st'\<rparr>"
  using assms by (auto simp add: update_bolts_def split: sum.splits)

lemma frame_exact:
  assumes f: "frame st w = Inr (False, st', w')"
  shows "\<exists>st4 w5 w6.
       spawn_bolt (fst (before_spawn st w)) (snd (before_spawn st w)) = Inr (st4, w5)
     \<and> bolts_pass (bolts st4) w5 = Inr (bolts st', w6)
     \<and> st' = advance_rain (fst (spawn_rain (st4\<lparr>bolts := bolts st'\<rparr>) w6))
     \<and> w' = render st' (snd (spawn_rain (st4\<lparr>bolts := bolts st'\<rparr>) w6))"
proof -
  have nq: "\<not> is_quit (fst (getch (snd (handle_resize st w))))"
    using frame_Inr [OF f] by (auto simp add: Let_def split: if_splits)
  with frame_Inr [OF f] obtain st4 w5 st5 w6 where
    sp: "spawn_bolt (fst (before_spawn st w)) (snd (before_spawn st w)) = Inr (st4, w5)"
    and up: "update_bolts st4 w5 = Inr (st5, w6)"
    and st': "st' = advance_rain (fst (spawn_rain st5 w6))"
    and w': "w' = render st' (snd (spawn_rain st5 w6))"
    by (auto simp add: Let_def before_spawn_def split_beta)
  have b5: "bolts st' = bolts st5"
    by (simp add: st')
  have s5: "st5 = st4\<lparr>bolts := bolts st'\<rparr>"
    using update_bolts_state [OF up] b5 by simp
  have p: "bolts_pass (bolts st4) w5 = Inr (bolts st', w6)"
    using update_bolts_Inr [OF up] b5 by simp
  show ?thesis
    using sp p st' [unfolded s5] w' [unfolded s5]
    by (intro exI [of _ st4] exI [of _ w5] exI [of _ w6]) simp
qed

lemma before_spawn_fields:
  "bolts (fst (before_spawn st w)) = bolts (fst (handle_resize st w))"
  "g_rows (fst (before_spawn st w)) = g_rows (fst (handle_resize st w))"
  "g_cols (fst (before_spawn st w)) = g_cols (fst (handle_resize st w))"
  "thunder (fst (before_spawn st w)) =
     (if key_src w (key_used w) = 116 \<or> key_src w (key_used w) = 84
      then \<not> thunder st else thunder st)"
  "clock (snd (before_spawn st w)) = clock w"
  by (simp_all add: before_spawn_def split_beta pace_clock handle_toggle_clock
      handle_resize_key handle_resize_thunder)

lemma frame_off_exact:
  assumes f: "frame st w = Inr (False, st', w')" and off: "\<not> thunder st'"
  shows "\<exists>w6. bolts_pass (bolts (fst (before_spawn st w))) (snd (before_spawn st w))
                = Inr (bolts st', w6)
     \<and> clock w6 = clock w
     \<and> clock (snd (spawn_rain ((fst (before_spawn st w))\<lparr>bolts := bolts st'\<rparr>) w6)) = clock w
     \<and> w' = render st' (snd (spawn_rain ((fst (before_spawn st w))\<lparr>bolts := bolts st'\<rparr>) w6))"
proof -
  from frame_exact [OF f] obtain st4 w5 w6 where
    sp: "spawn_bolt (fst (before_spawn st w)) (snd (before_spawn st w)) = Inr (st4, w5)"
    and p: "bolts_pass (bolts st4) w5 = Inr (bolts st', w6)"
    and st': "st' = advance_rain (fst (spawn_rain (st4\<lparr>bolts := bolts st'\<rparr>) w6))"
    and w': "w' = render st' (snd (spawn_rain (st4\<lparr>bolts := bolts st'\<rparr>) w6))"
    by blast
  have "thunder st' = thunder st4"
    by (subst st') simp
  also have "\<dots> = thunder (fst (before_spawn st w))"
    using spawn_bolt_fields [OF sp] by simp
  finally have "\<not> thunder (fst (before_spawn st w))"
    using off by simp
  from spawn_bolt_off [OF this, of "snd (before_spawn st w)"]
  have "Inr (st4, w5) = (Inr (fst (before_spawn st w), snd (before_spawn st w)) :: fault + sim \<times> world)"
    unfolding sp [symmetric] .
  hence e: "st4 = fst (before_spawn st w)" "w5 = snd (before_spawn st w)"
    by (simp_all only: sum.inject prod.inject)
  have c6: "clock w6 = clock w"
    using bolts_pass_clock [OF p] by (simp add: e before_spawn_fields)
  have c7: "clock (snd (spawn_rain ((fst (before_spawn st w))\<lparr>bolts := bolts st'\<rparr>) w6)) = clock w"
    using spawn_rain_quiet [of w6 "(fst (before_spawn st w))\<lparr>bolts := bolts st'\<rparr>"] c6
    by (simp add: quiet_def)
  show ?thesis
    using p w' c6 c7 unfolding e by (intro exI [of _ w6]) simp
qed

lemma freed_append: "freed (xs @ ys) = freed xs @ freed ys"
  by (induction xs rule: freed.induct) simp_all

lemma freed_map_Free: "freed (map (\<lambda>b. Free (segs b)) bs) = map segs bs"
  by (induction bs) simp_all

lemma freed_concat: "(\<And>x. x \<in> set xs \<Longrightarrow> freed (f x) = []) \<Longrightarrow> freed (concat (map f xs)) = []"
  by (induction xs) (simp_all add: freed_append)

lemma freed_drawn_cell: "freed (drawn_cell age a rows cols s) = []"
  by (simp add: drawn_cell_def split: option.splits)

lemma freed_bolts_cells: "freed (bolts_cells a rows cols clk k bs) = []"
  by (induction bs arbitrary: k) (simp_all add: freed_append freed_concat freed_drawn_cell)

lemma freed_drop_cells: "freed (drop_cells st d) = []"
  by (simp add: drop_cells_def)

lemma render_freed: "freed (trace (render st w)) = freed (trace w)"
  by (simp add: render_eq freed_append freed_bolts_cells freed_concat freed_drop_cells)

lemma sleep_sec_freed: "freed (trace (sleep_sec s w)) = freed (trace w)"
  by (simp add: sleep_sec_trace emit_def freed_append)

lemma before_spawn_freed:
  "freed (trace (snd (before_spawn st w))) = freed (trace (snd (handle_resize st w)))"
  by (simp add: before_spawn_def split_beta pace_trace sleep_sec_freed handle_toggle_def
      getch_def emit_def freed_append)

lemma handle_resize_freed:
  "freed (trace (snd (handle_resize st w))) =
     freed (trace w) @ (if g_resized st then map segs (bolts st) else [])"
  by (simp add: handle_resize_eq freed_append freed_map_Free)

lemma bolts_pass_freed:
  "bolts_pass bs w = Inr (ks, w') \<Longrightarrow>
     \<exists>(dead::bolt list). freed (trace w') = freed (trace w) @ map segs dead
        \<and> length ks + length dead = length bs"
proof (induction bs arbitrary: w ks)
  case Nil
  then show ?case by simp
next
  case (Cons b bs)
  from bolts_pass_head [OF Cons.prems] obtain alive b' w1 ks' where
    u: "bolt_update b w = Inr (alive, b', w1)"
    and p: "bolts_pass bs (if alive then w1 else emit (Free (segs b')) w1) = Inr (ks', w')"
    and k: "ks = (if alive then b' # ks' else ks')"
    by blast
  have t: "trace w1 = trace w"
    using bolt_update_Inr [OF u] by (simp add: quiet_def)
  from Cons.IH [OF p] obtain dead :: "bolt list" where
    d: "freed (trace w') = freed (trace (if alive then w1 else emit (Free (segs b')) w1))
          @ map segs dead"
    and l: "length ks' + length dead = length bs"
    by blast
  show ?case
  proof (cases alive)
    case True
    with d l k t show ?thesis
      by (intro exI [of _ dead]) simp
  next
    case False
    with d l k t show ?thesis
      by (intro exI [of _ "b' # dead"]) (simp add: emit_def freed_append)
  qed
qed

lemma frame_freed:
  assumes f: "frame st w = Inr (False, st', w')"
  shows "\<exists>st4 w5 w6 new.
       spawn_bolt (fst (before_spawn st w)) (snd (before_spawn st w)) = Inr (st4, w5)
     \<and> bolts st4 = bolts (fst (handle_resize st w)) @ new \<and> length new \<le> 1
     \<and> clock w5 = clock w
     \<and> freed (trace w5) = freed (trace (snd (handle_resize st w)))
     \<and> bolts_pass (bolts st4) w5 = Inr (bolts st', w6)
     \<and> freed (trace w') = freed (trace w6)"
proof -
  from frame_exact [OF f] obtain st4 w5 w6 where
    sp: "spawn_bolt (fst (before_spawn st w)) (snd (before_spawn st w)) = Inr (st4, w5)"
    and p: "bolts_pass (bolts st4) w5 = Inr (bolts st', w6)"
    and w': "w' = render st' (snd (spawn_rain (st4\<lparr>bolts := bolts st'\<rparr>) w6))"
    by blast
  from spawn_bolt_Inr [OF sp] have
    c: "st4 = fst (before_spawn st w)
        \<or> (\<exists>b. st4 = (fst (before_spawn st w))\<lparr>bolts := bolts (fst (before_spawn st w)) @ [b]\<rparr>)"
    and q: "quiet (snd (before_spawn st w)) w5"
    by blast+
  from c obtain new where n: "bolts st4 = bolts (fst (handle_resize st w)) @ new"
    and ln: "length new \<le> 1"
  proof
    assume "st4 = fst (before_spawn st w)"
    then have "bolts st4 = bolts (fst (handle_resize st w)) @ []"
      by (simp add: before_spawn_fields)
    then show ?thesis
      using that [of "[]"] by simp
  next
    assume "\<exists>b. st4 = (fst (before_spawn st w))\<lparr>bolts := bolts (fst (before_spawn st w)) @ [b]\<rparr>"
    then obtain b where
      "st4 = (fst (before_spawn st w))\<lparr>bolts := bolts (fst (before_spawn st w)) @ [b]\<rparr>"
      by blast
    then have "bolts st4 = bolts (fst (handle_resize st w)) @ [b]"
      by (simp add: before_spawn_fields)
    then show ?thesis
      using that [of "[b]"] by simp
  qed
  have ck: "clock w5 = clock w"
    using q by (simp add: quiet_def before_spawn_fields)
  have f5: "freed (trace w5) = freed (trace (snd (handle_resize st w)))"
    using q by (simp add: quiet_def before_spawn_freed)
  have "trace (snd (spawn_rain (st4\<lparr>bolts := bolts st'\<rparr>) w6)) = trace w6"
    using spawn_rain_quiet [of w6 "st4\<lparr>bolts := bolts st'\<rparr>"] by (simp add: quiet_def)
  then have f6: "freed (trace w') = freed (trace w6)"
    by (simp add: w' render_freed)
  from sp n ln ck f5 p f6 show ?thesis
    by blast
qed

lemma frame_removal:
  assumes f: "frame st w = Inr (False, st', w')" and nr: "\<not> g_resized st"
    and bs: "bolts st = xs @ b # ys"
  shows "\<exists>st4 w5 new ks1 wb alive b' wa ks2 w6 ext (dead1::bolt list) (dead2::bolt list).
        spawn_bolt (fst (before_spawn st w)) (snd (before_spawn st w)) = Inr (st4, w5)
      \<and> bolts st4 = bolts st @ new \<and> length new \<le> 1
      \<and> bolts_pass xs w5 = Inr (ks1, wb)
      \<and> bolt_update b wb = Inr (alive, b', wa)
      \<and> segs b' = segs b @ ext
      \<and> (\<not> alive) = (\<forall>i<length (segs b').
             SEGMENT_LIFESPAN < clock w (Suc (ticks wb) + i) - birth (segs b' ! i))
      \<and> bolts_pass (ys @ new) (if alive then wa else emit (Free (segs b')) wa) = Inr (ks2, w6)
      \<and> bolts st' = ks1 @ (if alive then [b'] else []) @ ks2
      \<and> length ks1 + length dead1 = length xs
      \<and> length ks2 + length dead2 = length ys + length new
      \<and> freed (trace w') =
          freed (trace w) @ map segs dead1 @ (if alive then [] else [segs b']) @ map segs dead2"
proof -
  have hr: "handle_resize st w = (st, w)"
    using nr by (simp add: handle_resize_eq)
  from frame_freed [OF f] obtain st4 w5 w6 new where
    sp: "spawn_bolt (fst (before_spawn st w)) (snd (before_spawn st w)) = Inr (st4, w5)"
    and n: "bolts st4 = bolts st @ new" and ln: "length new \<le> 1"
    and ck: "clock w5 = clock w"
    and f5: "freed (trace w5) = freed (trace w)"
    and p: "bolts_pass (bolts st4) w5 = Inr (bolts st', w6)"
    and f6: "freed (trace w') = freed (trace w6)"
    unfolding hr by auto
  have "bolts_pass (xs @ b # (ys @ new)) w5 = Inr (bolts st', w6)"
    using p by (simp add: n bs)
  from bolts_pass_split [OF this] obtain ks1 wb alive b' wa ks2 where
    p1: "bolts_pass xs w5 = Inr (ks1, wb)"
    and u: "bolt_update b wb = Inr (alive, b', wa)"
    and p2: "bolts_pass (ys @ new) (if alive then wa else emit (Free (segs b')) wa) = Inr (ks2, w6)"
    and k: "bolts st' = ks1 @ (if alive then [b'] else []) @ ks2"
    by blast
  from bolt_update_Inr [OF u] obtain ext where
    al: "alive = (\<not> expired (clock wb) (Suc (ticks wb)) (segs b'))"
    and q: "quiet wb wa" and ext: "segs b' = segs b @ ext"
    by blast
  have ckb: "clock wb = clock w"
    using bolts_pass_clock [OF p1] ck by simp
  have al': "(\<not> alive) = (\<forall>i<length (segs b').
             SEGMENT_LIFESPAN < clock w (Suc (ticks wb) + i) - birth (segs b' ! i))"
    by (simp add: al ckb expired_iff)
  from bolts_pass_freed [OF p1] obtain dead1 :: "bolt list" where
    d1: "freed (trace wb) = freed (trace w5) @ map segs dead1"
    and l1: "length ks1 + length dead1 = length xs"
    by blast
  from bolts_pass_freed [OF p2] obtain dead2 :: "bolt list" where
    d2: "freed (trace w6) = freed (trace (if alive then wa else emit (Free (segs b')) wa))
           @ map segs dead2"
    and l2: "length ks2 + length dead2 = length (ys @ new)"
    by blast
  have fm: "freed (trace (if alive then wa else emit (Free (segs b')) wa)) =
      freed (trace wb) @ (if alive then [] else [segs b'])"
    using q by (simp add: quiet_def emit_def freed_append)
  have fr: "freed (trace w') =
          freed (trace w) @ map segs dead1 @ (if alive then [] else [segs b']) @ map segs dead2"
    by (simp only: f6 d2 fm d1 f5 append_assoc)
  have l2': "length ks2 + length dead2 = length ys + length new"
    using l2 by simp
  show ?thesis
    apply (rule exI [of _ st4], rule exI [of _ w5], rule exI [of _ new], rule exI [of _ ks1])
    apply (rule exI [of _ wb], rule exI [of _ alive], rule exI [of _ b'], rule exI [of _ wa])
    apply (rule exI [of _ ks2], rule exI [of _ w6], rule exI [of _ ext], rule exI [of _ dead1])
    apply (rule exI [of _ dead2])
    using sp n ln p1 u ext al' p2 k l1 l2' fr
    apply (intro conjI)
    apply assumption+
    done
qed

lemma frame_resize_frees:
  assumes f: "frame st w = Inr (q, st', w')" and r: "g_resized st"
  shows "bolts (fst (handle_resize st w)) = []
     \<and> (\<exists>(dead::bolt list). freed (trace w') = freed (trace w) @ map segs (bolts st) @ map segs dead
           \<and> length (bolts st') + length dead \<le> 1)"
proof -
  have e: "bolts (fst (handle_resize st w)) = []"
    using r by (simp add: handle_resize_eq)
  have hf: "freed (trace (snd (handle_resize st w))) = freed (trace w) @ map segs (bolts st)"
    using r by (simp add: handle_resize_freed)
  have "\<exists>(dead::bolt list). freed (trace w') = freed (trace w) @ map segs (bolts st) @ map segs dead
           \<and> length (bolts st') + length dead \<le> 1"
  proof (cases q)
    case True
    with frame_Inr [OF f] have "st' = fst (handle_resize st w)"
      and "w' = snd (getch (snd (handle_resize st w)))"
      by (auto simp add: Let_def split: if_splits)
    then have "freed (trace w') = freed (trace w) @ map segs (bolts st) @ map segs []"
      and "length (bolts st') + length ([] :: bolt list) \<le> 1"
      using hf e by (simp_all add: getch_def)
    then show ?thesis
      by blast
  next
    case False
    with f have f': "frame st w = Inr (False, st', w')"
      by simp
    from frame_freed [OF f'] obtain st4 :: sim and w5 w6 :: world and new where
      n: "bolts st4 = bolts (fst (handle_resize st w)) @ new" and ln: "length new \<le> 1"
      and f5: "freed (trace w5) = freed (trace (snd (handle_resize st w)))"
      and p: "bolts_pass (bolts st4) w5 = Inr (bolts st', w6)"
      and f6: "freed (trace w') = freed (trace w6)"
      by blast
    from bolts_pass_freed [OF p] obtain dead :: "bolt list" where
      d: "freed (trace w6) = freed (trace w5) @ map segs dead"
      and l: "length (bolts st') + length dead = length (bolts st4)"
      by blast
    have "freed (trace w') = freed (trace w) @ map segs (bolts st) @ map segs dead"
      by (simp only: f6 d f5 hf append_assoc)
    moreover have "length (bolts st') + length dead \<le> 1"
      using l ln by (simp add: n e)
    ultimately show ?thesis
      by blast
  qed
  with e show ?thesis
    by simp
qed

lemma frame_quit_keeps:
  assumes f: "frame st w = Inr (True, st', w')" and nr: "\<not> g_resized st"
  shows "bolts st' = bolts st \<and> freed (trace w') = freed (trace w)"
proof -
  from frame_Inr [OF f] have "st' = fst (handle_resize st w)"
    and "w' = snd (getch (snd (handle_resize st w)))"
    by (auto simp add: Let_def split: if_splits)
  then show ?thesis
    using nr by (simp add: handle_resize_eq getch_def)
qed

text \<open>
  C8: the toggle changes the thunderstorm flag and leaves the bolt store as it is. With
  the flag off the spawn block does nothing, so a frame that ends with the flag off has
  spawned no bolt: its bolt store is the result of the compaction pass over the bolts
  it held after the resize block, in a world with the same clock. That pass treats the
  bolts as in any frame: a bolt is updated, and it is dropped only when every segment is
  older than 0.8 seconds at the clock reading the liveness loop takes for it. The frame
  then draws the bolts that the pass has kept: \<open>render\<close> does not look at the flag
  for them, and writes for every segment of every bolt in the store the glyph of the fade
  rule at the segment's age, and nothing for a segment older than 0.8 seconds.
\<close>

theorem thunder_off:
  "bolts (fst (handle_toggle c st w)) = bolts st
   \<and> thunder (fst (handle_toggle c st w)) = (if c = 116 \<or> c = 84 then \<not> thunder st else thunder st)
   \<and> (\<not> thunder sa \<longrightarrow> spawn_bolt sa wa = Inr (sa, wa))
   \<and> (frame sx wx = Inr (False, sx', wx') \<longrightarrow>
        thunder sx' = (if key_src wx (key_used wx) = 116 \<or> key_src wx (key_used wx) = 84
                       then \<not> thunder sx else thunder sx)
        \<and> (\<not> thunder sx' \<longrightarrow>
             length (bolts sx') \<le> length (bolts sx)
             \<and> (\<exists>(w5::world) w6. clock w5 = clock wx
                   \<and> bolts_pass (bolts (fst (handle_resize sx wx))) w5 = Inr (bolts sx', w6))))
   \<and> (bolts_pass (b # bs) wb = Inr (ks, wb') \<longrightarrow>
        (\<exists>alive b' w1 ks'. bolt_update b wb = Inr (alive, b', w1)
           \<and> (\<not> alive) = (\<forall>i<length (segs b').
                  SEGMENT_LIFESPAN < clock wb (Suc (ticks wb) + i) - birth (segs b' ! i))
           \<and> bolts_pass bs (if alive then w1 else emit (Free (segs b')) w1) = Inr (ks', wb')
           \<and> ks = (if alive then b' # ks' else ks')))
   \<and> (frame sx wx = Inr (False, sx', wx') \<and> \<not> thunder sx' \<longrightarrow>
        (\<exists>w6 w7.
            bolts (fst (before_spawn sx wx)) = bolts (fst (handle_resize sx wx))
          \<and> clock (snd (before_spawn sx wx)) = clock wx
          \<and> bolts_pass (bolts (fst (before_spawn sx wx))) (snd (before_spawn sx wx))
               = Inr (bolts sx', w6)
          \<and> w7 = snd (spawn_rain ((fst (before_spawn sx wx))\<lparr>bolts := bolts sx'\<rparr>) w6)
          \<and> wx' = render sx' w7
          \<and> trace wx' = trace w7 @ Erase #
               bolts_cells (light_attr sx') (g_rows sx') (g_cols sx') (clock wx) (ticks w7)
                 (bolts sx')
               @ concat (map (drop_cells sx') (rain sx')) @ [Doupdate, Refresh]))
   \<and> render sr wr =
        wr\<lparr>ticks := ticks wr + length (bolts sr),
           trace := trace wr @ Erase #
             bolts_cells (light_attr sr) (g_rows sr) (g_cols sr) (clock wr) (ticks wr) (bolts sr)
             @ concat (map (drop_cells sr) (rain sr)) @ [Doupdate, Refresh]\<rparr>
   \<and> bolts_cells a rows cols clk k (bd # bds) =
        concat (map (\<lambda>s. drawn_cell (clk k - birth s) a rows cols s) (segs bd))
          @ bolts_cells a rows cols clk (Suc k) bds"
proof -
  have a: "bolts (fst (handle_toggle c st w)) = bolts st"
    by simp
  have b: "thunder (fst (handle_toggle c st w)) =
      (if c = 116 \<or> c = 84 then \<not> thunder st else thunder st)"
    by simp
  have c: "\<not> thunder sa \<longrightarrow> spawn_bolt sa wa = Inr (sa, wa)"
    by (simp add: spawn_bolt_off)
  have d: "frame sx wx = Inr (False, sx', wx') \<longrightarrow>
        thunder sx' = (if key_src wx (key_used wx) = 116 \<or> key_src wx (key_used wx) = 84
                       then \<not> thunder sx else thunder sx)
        \<and> (\<not> thunder sx' \<longrightarrow>
             length (bolts sx') \<le> length (bolts sx)
             \<and> (\<exists>(w5::world) w6. clock w5 = clock wx
                   \<and> bolts_pass (bolts (fst (handle_resize sx wx))) w5 = Inr (bolts sx', w6)))"
    using frame_thunder_off [of sx wx sx' wx'] by blast
  have e: "bolts_pass (b # bs) wb = Inr (ks, wb') \<longrightarrow>
        (\<exists>alive b' w1 ks'. bolt_update b wb = Inr (alive, b', w1)
           \<and> (\<not> alive) = (\<forall>i<length (segs b').
                  SEGMENT_LIFESPAN < clock wb (Suc (ticks wb) + i) - birth (segs b' ! i))
           \<and> bolts_pass bs (if alive then w1 else emit (Free (segs b')) w1) = Inr (ks', wb')
           \<and> ks = (if alive then b' # ks' else ks'))"
    using bolts_pass_head [of b bs wb ks wb'] by blast
  have f: "frame sx wx = Inr (False, sx', wx') \<and> \<not> thunder sx' \<longrightarrow>
        (\<exists>w6 w7.
            bolts (fst (before_spawn sx wx)) = bolts (fst (handle_resize sx wx))
          \<and> clock (snd (before_spawn sx wx)) = clock wx
          \<and> bolts_pass (bolts (fst (before_spawn sx wx))) (snd (before_spawn sx wx))
               = Inr (bolts sx', w6)
          \<and> w7 = snd (spawn_rain ((fst (before_spawn sx wx))\<lparr>bolts := bolts sx'\<rparr>) w6)
          \<and> wx' = render sx' w7
          \<and> trace wx' = trace w7 @ Erase #
               bolts_cells (light_attr sx') (g_rows sx') (g_cols sx') (clock wx) (ticks w7)
                 (bolts sx')
               @ concat (map (drop_cells sx') (rain sx')) @ [Doupdate, Refresh])"
  proof
    assume h: "frame sx wx = Inr (False, sx', wx') \<and> \<not> thunder sx'"
    from frame_off_exact [of sx wx sx' wx'] h obtain w6 where
      p: "bolts_pass (bolts (fst (before_spawn sx wx))) (snd (before_spawn sx wx))
            = Inr (bolts sx', w6)"
      and c7: "clock (snd (spawn_rain ((fst (before_spawn sx wx))\<lparr>bolts := bolts sx'\<rparr>) w6))
                 = clock wx"
      and w': "wx' = render sx' (snd (spawn_rain ((fst (before_spawn sx wx))\<lparr>bolts := bolts sx'\<rparr>) w6))"
      by blast
    define w7 where "w7 = snd (spawn_rain ((fst (before_spawn sx wx))\<lparr>bolts := bolts sx'\<rparr>) w6)"
    have t: "trace wx' = trace w7 @ Erase #
               bolts_cells (light_attr sx') (g_rows sx') (g_cols sx') (clock wx) (ticks w7)
                 (bolts sx')
               @ concat (map (drop_cells sx') (rain sx')) @ [Doupdate, Refresh]"
      using c7 by (simp add: w' w7_def [symmetric] render_eq)
    show "\<exists>w6 w7.
            bolts (fst (before_spawn sx wx)) = bolts (fst (handle_resize sx wx))
          \<and> clock (snd (before_spawn sx wx)) = clock wx
          \<and> bolts_pass (bolts (fst (before_spawn sx wx))) (snd (before_spawn sx wx))
               = Inr (bolts sx', w6)
          \<and> w7 = snd (spawn_rain ((fst (before_spawn sx wx))\<lparr>bolts := bolts sx'\<rparr>) w6)
          \<and> wx' = render sx' w7
          \<and> trace wx' = trace w7 @ Erase #
               bolts_cells (light_attr sx') (g_rows sx') (g_cols sx') (clock wx) (ticks w7)
                 (bolts sx')
               @ concat (map (drop_cells sx') (rain sx')) @ [Doupdate, Refresh]"
      using p t w'
      by (intro exI [of _ w6] exI [of _ w7]) (simp add: before_spawn_fields w7_def)
  qed
  have g: "render sr wr =
        wr\<lparr>ticks := ticks wr + length (bolts sr),
           trace := trace wr @ Erase #
             bolts_cells (light_attr sr) (g_rows sr) (g_cols sr) (clock wr) (ticks wr) (bolts sr)
             @ concat (map (drop_cells sr) (rain sr)) @ [Doupdate, Refresh]\<rparr>"
    by (rule render_eq)
  have h: "bolts_cells a rows cols clk k (bd # bds) =
        concat (map (\<lambda>s. drawn_cell (clk k - birth s) a rows cols s) (segs bd))
          @ bolts_cells a rows cols clk (Suc k) bds"
    by simp
  from a b c d e f g h show ?thesis
    by (intro conjI)
qed

lemma pass_old:
  "bolts_pass (bolt_old # []) w0 =
     Inr ([], w0\<lparr>ticks := 2, trace := [Free [\<lparr>seg_y = 0, seg_x = 20, birth = - 1\<rparr>]]\<rparr>)"
  by (simp add: run_defs bolt_old_def)

lemma frame_toggle_off_cell:
  "\<exists>st' w'. frame st_storm w_storm = Inr (False, st', w')
     \<and> Mvaddch 0 20 (CHR ''#'') (light_attr st_storm) \<in> set (trace w')"
  by (simp add: run_defs st_storm_def bolt_storm_def w_storm_def)

theorem thunder_off_witness:
  "thunder st_storm \<and> key_src w_storm (key_used w_storm) = 116
   \<and> (\<exists>st' w'. frame st_storm w_storm = Inr (False, st', w') \<and> \<not> thunder st'
          \<and> length (bolts st') \<le> length (bolts st_storm)
          \<and> Mvaddch 0 20 (CHR ''#'') (light_attr st_storm) \<in> set (trace w')
          \<and> (\<exists>(w7::world). trace w' = trace w7 @ Erase #
               bolts_cells (light_attr st') (g_rows st') (g_cols st') (clock w_storm) (ticks w7)
                 (bolts st')
               @ concat (map (drop_cells st') (rain st')) @ [Doupdate, Refresh]))
   \<and> spawn_bolt sim0 w0 = Inr (sim0, w0)
   \<and> (\<exists>alive b' w1. bolt_update bolt_old w0 = Inr (alive, b', w1))"
proof -
  obtain st' w' where f: "frame st_storm w_storm = Inr (False, st', w')"
    and cell: "Mvaddch 0 20 (CHR ''#'') (light_attr st_storm) \<in> set (trace w')"
    using frame_toggle_off_cell by blast
  have k: "key_src w_storm (key_used w_storm) = 116" "thunder st_storm" "\<not> thunder sim0"
    by (simp_all add: w_storm_def w0_def st_storm_def sim0_def)
  note t = thunder_off [where sa = sim0 and wa = w0 and sx = st_storm and wx = w_storm
      and sx' = st' and wx' = w' and b = bolt_old and bs = "[]" and wb = w0 and ks = "[]"
      and wb' = "w0\<lparr>ticks := 2, trace := [Free [\<lparr>seg_y = 0, seg_x = 20, birth = - 1\<rparr>]]\<rparr>"]
  note t3 = t [THEN conjunct2, THEN conjunct2, THEN conjunct1]
  note t4 = t [THEN conjunct2, THEN conjunct2, THEN conjunct2, THEN conjunct1]
  note t5 = t [THEN conjunct2, THEN conjunct2, THEN conjunct2, THEN conjunct2, THEN conjunct1]
  from t4 f k have th: "\<not> thunder st'"
    by simp
  with t4 f have l: "length (bolts st') \<le> length (bolts st_storm)"
    by blast
  note t6 = t [THEN conjunct2, THEN conjunct2, THEN conjunct2, THEN conjunct2, THEN conjunct2,
      THEN conjunct1]
  from t6 f th have d: "\<exists>(w7::world). trace w' = trace w7 @ Erase #
               bolts_cells (light_attr st') (g_rows st') (g_cols st') (clock w_storm) (ticks w7)
                 (bolts st')
               @ concat (map (drop_cells st') (rain st')) @ [Doupdate, Refresh]"
    by blast
  from t3 k have s: "spawn_bolt sim0 w0 = Inr (sim0, w0)"
    by blast
  from t5 pass_old have u: "\<exists>alive b' w1. bolt_update bolt_old w0 = Inr (alive, b', w1)"
    by blast
  from f th l cell d have "\<exists>st' w'. frame st_storm w_storm = Inr (False, st', w') \<and> \<not> thunder st'
          \<and> length (bolts st') \<le> length (bolts st_storm)
          \<and> Mvaddch 0 20 (CHR ''#'') (light_attr st_storm) \<in> set (trace w')
          \<and> (\<exists>(w7::world). trace w' = trace w7 @ Erase #
               bolts_cells (light_attr st') (g_rows st') (g_cols st') (clock w_storm) (ticks w7)
                 (bolts st')
               @ concat (map (drop_cells st') (rain st')) @ [Doupdate, Refresh])"
    by blast
  with k s u show ?thesis
    by simp
qed

lemma frame_st_old:
  "\<exists>st' w'. frame st_old w0 = Inr (False, st', w') \<and> bolts st' = []
      \<and> freed (trace w') = [segs bolt_old]"
  by (simp add: run_defs st_old_def bolt_old_def)

lemma frame_st_old_quit:
  "\<exists>st' w'. frame st_old w_quit = Inr (True, st', w')"
  by (simp add: run_defs st_old_def bolt_old_def w_quit_def)

lemma frame_st_resize:
  "\<exists>st' w'. frame st_resize w0 = Inr (False, st', w') \<and> bolts st' = []
      \<and> freed (trace w') = [segs bolt_storm]
      \<and> list_all (\<lambda>s. clock w0 (ticks w') - birth s \<le> SEGMENT_LIFESPAN) (segs bolt_storm)"
  by (simp add: run_defs st_resize_def bolt_storm_def)

text \<open>
  C1, as stated: the frame loop removes a bolt, and frees its segments, only when every
  segment is older than 0.8 seconds at the liveness check. A frame that finds a resize
  pending empties the store before any liveness check: the bolt of this store is removed
  and its segments are freed while every segment is younger than 0.8 seconds at the last
  clock reading of the frame, on a clock that never goes back.
\<close>

theorem resize_removes_young_bolt:
  "g_resized st_resize \<and> bolts st_resize = [bolt_storm] \<and> mono (clock w0)
   \<and> (\<exists>st' w'. frame st_resize w0 = Inr (False, st', w') \<and> bolts st' = []
      \<and> freed (trace w') = [segs bolt_storm]
      \<and> list_all (\<lambda>s. clock w0 (ticks w') - birth s \<le> SEGMENT_LIFESPAN) (segs bolt_storm))"
proof -
  have "mono (clock w0)"
    by (simp add: w0_def mono_def divide_right_mono)
  moreover have "g_resized st_resize \<and> bolts st_resize = [bolt_storm]"
    by (simp add: st_resize_def)
  ultimately show ?thesis
    using frame_st_resize by blast
qed

text \<open>
  C1, amended: a bolt has a segment when it is created, and every bolt in the store of
  every state the program reaches has one, so that no frame reads the last segment of an
  empty array. In an iteration of the loop that finds no resize pending and is not left
  by \<^verbatim>\<open>break\<close>, for a bolt at any place of the store: the spawn block appends at most
  one bolt, \<^verbatim>\<open>bolt_update\<close> only appends segments, and the bolt is missing from the store
  at the end of the iteration, its segments handed to \<^verbatim>\<open>free\<close>, if and only if every
  segment is older than 0.8 seconds at the clock reading that the liveness loop takes
  for it; the segment arrays freed in the iteration are those of the bolts dropped, in
  order. An iteration left by \<^verbatim>\<open>break\<close> with no resize pending removes and frees
  nothing. An iteration that finds a resize pending removes every bolt of the store and
  frees its segments, whatever their age. With a clock that never goes back the test of
  the liveness loop is the same as: every segment is older than 0.8 seconds at the last
  clock reading of the liveness check.
\<close>

theorem bolt_lifetime:
  "segs (fst (bolt_create sr sc my mx w)) \<noteq> []
   \<and> (run e wr k = Inr (q, st, w1) \<longrightarrow>
        list_all (\<lambda>b. segs b \<noteq> []) (bolts st) \<and> frame st wx \<noteq> Inl OutOfBounds)
   \<and> (frame sg wg = Inr (False, sg', wg') \<and> \<not> g_resized sg \<and> bolts sg = xs @ b # ys \<longrightarrow>
        (\<exists>st4 w5 new ks1 wb alive b' wa ks2 w6 ext (dead1::bolt list) (dead2::bolt list).
            spawn_bolt (fst (before_spawn sg wg)) (snd (before_spawn sg wg)) = Inr (st4, w5)
          \<and> bolts st4 = bolts sg @ new \<and> length new \<le> 1
          \<and> bolts_pass xs w5 = Inr (ks1, wb)
          \<and> bolt_update b wb = Inr (alive, b', wa)
          \<and> segs b' = segs b @ ext
          \<and> (\<not> alive) = (\<forall>i<length (segs b').
                 SEGMENT_LIFESPAN < clock wg (Suc (ticks wb) + i) - birth (segs b' ! i))
          \<and> bolts_pass (ys @ new) (if alive then wa else emit (Free (segs b')) wa)
               = Inr (ks2, w6)
          \<and> bolts sg' = ks1 @ (if alive then [b'] else []) @ ks2
          \<and> length ks1 + length dead1 = length xs
          \<and> length ks2 + length dead2 = length ys + length new
          \<and> freed (trace wg') =
              freed (trace wg) @ map segs dead1 @ (if alive then [] else [segs b'])
                @ map segs dead2))
   \<and> (frame sq wq = Inr (True, sq', wq') \<and> \<not> g_resized sq \<longrightarrow>
        bolts sq' = bolts sq \<and> freed (trace wq') = freed (trace wq))
   \<and> (frame sz wz = Inr (qz, sz', wz') \<and> g_resized sz \<longrightarrow>
        bolts (fst (handle_resize sz wz)) = []
        \<and> (\<exists>(dead::bolt list).
              freed (trace wz') = freed (trace wz) @ map segs (bolts sz) @ map segs dead
            \<and> length (bolts sz') + length dead \<le> 1))
   \<and> (mono (clock wm) \<and> segs bm \<noteq> [] \<and> bolt_update bm wm = Inr (am, bm', wm') \<longrightarrow>
        (\<not> am) = (\<forall>s\<in>set (segs bm').
                     SEGMENT_LIFESPAN < clock wm (ticks wm' - 1) - birth s))"
proof -
  have a: "segs (fst (bolt_create sr sc my mx w)) \<noteq> []"
    using bolt_create_ok [of sr sc my mx w] by (simp add: bolt_ok_def)
  have b: "run e wr k = Inr (q, st, w1) \<longrightarrow>
        list_all (\<lambda>b. segs b \<noteq> []) (bolts st) \<and> frame st wx \<noteq> Inl OutOfBounds"
    using run_store_ok [of e wr k q st w1] store_ok_bolts [of st] frame_no_oob [of st wx]
    by (auto simp add: list_all_iff)
  have c: "frame sg wg = Inr (False, sg', wg') \<and> \<not> g_resized sg \<and> bolts sg = xs @ b # ys \<longrightarrow>
        (\<exists>st4 w5 new ks1 wb alive b' wa ks2 w6 ext (dead1::bolt list) (dead2::bolt list).
            spawn_bolt (fst (before_spawn sg wg)) (snd (before_spawn sg wg)) = Inr (st4, w5)
          \<and> bolts st4 = bolts sg @ new \<and> length new \<le> 1
          \<and> bolts_pass xs w5 = Inr (ks1, wb)
          \<and> bolt_update b wb = Inr (alive, b', wa)
          \<and> segs b' = segs b @ ext
          \<and> (\<not> alive) = (\<forall>i<length (segs b').
                 SEGMENT_LIFESPAN < clock wg (Suc (ticks wb) + i) - birth (segs b' ! i))
          \<and> bolts_pass (ys @ new) (if alive then wa else emit (Free (segs b')) wa)
               = Inr (ks2, w6)
          \<and> bolts sg' = ks1 @ (if alive then [b'] else []) @ ks2
          \<and> length ks1 + length dead1 = length xs
          \<and> length ks2 + length dead2 = length ys + length new
          \<and> freed (trace wg') =
              freed (trace wg) @ map segs dead1 @ (if alive then [] else [segs b'])
                @ map segs dead2)"
    using frame_removal [of sg wg sg' wg' xs b ys] by (intro impI) (elim conjE)
  have d: "frame sq wq = Inr (True, sq', wq') \<and> \<not> g_resized sq \<longrightarrow>
        bolts sq' = bolts sq \<and> freed (trace wq') = freed (trace wq)"
    using frame_quit_keeps [of sq wq sq' wq'] by (intro impI) (elim conjE)
  have e: "frame sz wz = Inr (qz, sz', wz') \<and> g_resized sz \<longrightarrow>
        bolts (fst (handle_resize sz wz)) = []
        \<and> (\<exists>(dead::bolt list).
              freed (trace wz') = freed (trace wz) @ map segs (bolts sz) @ map segs dead
            \<and> length (bolts sz') + length dead \<le> 1)"
    using frame_resize_frees [of sz wz qz sz' wz'] by (intro impI) (elim conjE)
  have f: "mono (clock wm) \<and> segs bm \<noteq> [] \<and> bolt_update bm wm = Inr (am, bm', wm') \<longrightarrow>
        (\<not> am) = (\<forall>s\<in>set (segs bm').
                     SEGMENT_LIFESPAN < clock wm (ticks wm' - 1) - birth s)"
    using bolt_update_last_reading [of bm wm am bm' wm'] by blast
  from a b c d e f show ?thesis
    by (intro conjI)
qed

theorem bolt_lifetime_witness:
  "list_all (\<lambda>b. segs b \<noteq> []) (bolts st_storm)
   \<and> frame st_storm w0 \<noteq> Inl OutOfBounds
   \<and> \<not> g_resized st_old \<and> bolts st_old = [] @ bolt_old # []
   \<and> (\<exists>st' w'. frame st_old w0 = Inr (False, st', w') \<and> bolts st' = []
         \<and> freed (trace w') = [segs bolt_old]
         \<and> (\<exists>wb alive b' wa. bolt_update bolt_old wb = Inr (alive, b', wa) \<and> \<not> alive))
   \<and> (\<exists>st' w'. frame st_old w_quit = Inr (True, st', w') \<and> bolts st' = [bolt_old]
         \<and> freed (trace w') = freed (trace w_quit))
   \<and> g_resized st_resize
   \<and> (\<exists>st' w' (dead::bolt list). frame st_resize w0 = Inr (False, st', w')
         \<and> freed (trace w') = freed (trace w0) @ map segs (bolts st_resize) @ map segs dead)
   \<and> mono (clock w0) \<and> segs bolt_old \<noteq> []
   \<and> bolt_update bolt_old w0 = Inr (False, bolt_old, w0\<lparr>ticks := 2\<rparr>)
   \<and> SEGMENT_LIFESPAN < clock w0 (ticks (w0\<lparr>ticks := 2\<rparr>) - 1) - birth (hd (segs bolt_old))"
proof -
  obtain w' where r: "run e0 w_storm 1 = Inr (False, st_storm, w')"
    using run_storm by blast
  obtain so wo where fo: "frame st_old w0 = Inr (False, so, wo)" and bo: "bolts so = []"
    and fro: "freed (trace wo) = [segs bolt_old]"
    using frame_st_old by blast
  obtain sq wq where fq: "frame st_old w_quit = Inr (True, sq, wq)"
    using frame_st_old_quit by blast
  obtain sz wz where fz: "frame st_resize w0 = Inr (False, sz, wz)"
    using frame_st_resize by blast
  have m: "mono (clock w0)"
    by (simp add: w0_def mono_def divide_right_mono)
  have ne: "segs bolt_old \<noteq> []"
    by (simp add: bolt_old_def)
  have u: "bolt_update bolt_old w0 = Inr (False, bolt_old, w0\<lparr>ticks := 2\<rparr>)"
    by (simp add: run_defs bolt_old_def)
  have g: "\<not> g_resized st_old" "bolts st_old = [] @ bolt_old # []" "g_resized st_resize"
    by (simp_all add: st_old_def st_resize_def sim0_def)
  note t = bolt_lifetime [where e = e0 and wr = w_storm and k = 1 and q = False and st = st_storm
      and ?w1.0 = w' and wx = w0 and sg = st_old and wg = w0 and sg' = so and wg' = wo
      and xs = "[]" and b = bolt_old and ys = "[]"
      and sq = st_old and wq = w_quit and sq' = sq and wq' = wq
      and sz = st_resize and wz = w0 and qz = False and sz' = sz and wz' = wz
      and wm = w0 and bm = bolt_old and am = False and bm' = bolt_old
      and wm' = "w0\<lparr>ticks := 2\<rparr>"]
  note t2 = t [THEN conjunct2, THEN conjunct1]
  note t3 = t [THEN conjunct2, THEN conjunct2, THEN conjunct1]
  note t4 = t [THEN conjunct2, THEN conjunct2, THEN conjunct2, THEN conjunct1]
  note t5 = t [THEN conjunct2, THEN conjunct2, THEN conjunct2, THEN conjunct2, THEN conjunct1]
  note t6 = t [THEN conjunct2, THEN conjunct2, THEN conjunct2, THEN conjunct2, THEN conjunct2]
  from t6 m ne u have
    "\<forall>s\<in>set (segs bolt_old). SEGMENT_LIFESPAN < clock w0 (ticks (w0\<lparr>ticks := 2\<rparr>) - 1) - birth s"
    by blast
  then have l: "SEGMENT_LIFESPAN < clock w0 (ticks (w0\<lparr>ticks := 2\<rparr>) - 1) - birth (hd (segs bolt_old))"
    using ne by simp
  from t2 r have s: "list_all (\<lambda>b. segs b \<noteq> []) (bolts st_storm)"
    "frame st_storm w0 \<noteq> Inl OutOfBounds"
    by blast+
  from t3 fo g obtain wb alive b' wa ks1 ks2 where
    ub: "bolt_update bolt_old wb = Inr (alive, b', wa)"
    and kb: "bolts so = ks1 @ (if alive then [b'] else []) @ ks2"
    by blast
  from kb bo have na: "\<not> alive"
    by (cases alive) simp_all
  from fo bo fro ub na have c: "\<exists>st' w'. frame st_old w0 = Inr (False, st', w') \<and> bolts st' = []
         \<and> freed (trace w') = [segs bolt_old]
         \<and> (\<exists>wb alive b' wa. bolt_update bolt_old wb = Inr (alive, b', wa) \<and> \<not> alive)"
    by blast
  from t4 fq g have "bolts sq = bolts st_old \<and> freed (trace wq) = freed (trace w_quit)"
    by blast
  then have "bolts sq = [bolt_old] \<and> freed (trace wq) = freed (trace w_quit)"
    using g by simp
  with fq have d: "\<exists>st' w'. frame st_old w_quit = Inr (True, st', w') \<and> bolts st' = [bolt_old]
         \<and> freed (trace w') = freed (trace w_quit)"
    by blast
  from t5 fz g obtain dead :: "bolt list" where
    "freed (trace wz) = freed (trace w0) @ map segs (bolts st_resize) @ map segs dead"
    by blast
  with fz have z: "\<exists>st' w' (dead::bolt list). frame st_resize w0 = Inr (False, st', w')
         \<and> freed (trace w') = freed (trace w0) @ map segs (bolts st_resize) @ map segs dead"
    by blast
  from s g c d z m ne u l show ?thesis
    by (intro conjI)
qed

lemma main_tty_missing:
  "tty_missing e \<Longrightarrow> main fuel e w = Some (Inr (1, emit (Stderr tty_message) w))"
  by (simp add: main_def)

lemma main_initscr_fails:
  "\<not> tty_missing e \<Longrightarrow> \<not> term_known e \<Longrightarrow>
     main fuel e w = Some (Inr (1, emit (Stderr (initscr_message e)) w))"
  by (simp add: main_def)

lemma main_status:
  "\<not> tty_missing e \<Longrightarrow> term_known e \<Longrightarrow> main fuel e w = Some (Inr (s, w')) \<Longrightarrow> s = 0"
  by (auto simp add: main_def split_beta split: option.splits sum.splits)

text \<open>
  C9: without a usable terminal \<^verbatim>\<open>main\<close> returns 1 for every fuel, and the diagnostic on
  standard error is its only effect: no terminal mode is entered and nothing is drawn.
  That holds when the check of \<^verbatim>\<open>main\<close> fails (standard output is not a terminal,
  \<^verbatim>\<open>TERM\<close> is not set or is \<^verbatim>\<open>dumb\<close>) and when \<^verbatim>\<open>initscr\<close> cannot open the terminal that
  \<^verbatim>\<open>TERM\<close> names. With a terminal that \<^verbatim>\<open>initscr\<close> opens, a run that returns returns 0.
  One more condition ends the program: on a terminal of 1 column, with the storm switched
  on, the spawn block computes \<^verbatim>\<open>rand() % (g_cols/2)\<close> with a zero divisor. The raindrop
  spawn in the same state is guarded (\<^verbatim>\<open>g_cols > 1 ? g_cols : 1\<close>) and does not fault.
\<close>

theorem tty_check_and_fault:
  "(tty_missing e \<longrightarrow> main fuel e w = Some (Inr (1, emit (Stderr tty_message) w)))
   \<and> (\<not> tty_missing e \<and> \<not> term_known e \<longrightarrow>
        main fuel e w = Some (Inr (1, emit (Stderr (initscr_message e)) w)))
   \<and> (\<not> tty_missing e \<and> term_known e \<and> main fuel e w = Some (Inr (s, w')) \<longrightarrow> s = 0)
   \<and> \<not> tty_missing e0 \<and> term_known e0
   \<and> g_cols (fst (startup e0 w_narrow)) = 1
   \<and> main (Suc n) e0 w_narrow = Some (Inl DivByZero)
   \<and> spawn_bolt (sim0\<lparr>thunder := True, g_cols := 1\<rparr>) w0 = Inl DivByZero
   \<and> (\<exists>st' w'. spawn_rain (sim0\<lparr>thunder := True, g_cols := 1\<rparr>) w0 = (st', w')
         \<and> map drop_x (rain st') = [0])"
proof -
  have a: "tty_missing e \<longrightarrow> main fuel e w = Some (Inr (1, emit (Stderr tty_message) w))"
    by (simp add: main_tty_missing)
  have i: "\<not> tty_missing e \<and> \<not> term_known e \<longrightarrow>
        main fuel e w = Some (Inr (1, emit (Stderr (initscr_message e)) w))"
    by (simp add: main_initscr_fails)
  have b: "\<not> tty_missing e \<and> term_known e \<and> main fuel e w = Some (Inr (s, w')) \<longrightarrow> s = 0"
    using main_status [of e fuel w s w'] by blast
  have c: "\<not> tty_missing e0 \<and> term_known e0
   \<and> g_cols (fst (startup e0 w_narrow)) = 1
   \<and> main (Suc n) e0 w_narrow = Some (Inl DivByZero)
   \<and> spawn_bolt (sim0\<lparr>thunder := True, g_cols := 1\<rparr>) w0 = Inl DivByZero
   \<and> (\<exists>st' w'. spawn_rain (sim0\<lparr>thunder := True, g_cols := 1\<rparr>) w0 = (st', w')
         \<and> map drop_x (rain st') = [0])"
    by (simp add: main_def tty_missing_def e0_def w_narrow_def w_storm_def run_defs)
  from a i b c show ?thesis
    by (intro conjI) (elim conjE, assumption)+
qed

theorem tty_check_and_fault_witness:
  "tty_missing (e0\<lparr>term_var := Some ''dumb''\<rparr>)
   \<and> main 0 (e0\<lparr>term_var := Some ''dumb''\<rparr>) w0 = Some (Inr (1, emit (Stderr tty_message) w0))
   \<and> trace (emit (Stderr tty_message) w0) =
        [Stderr (''Error: This program requires a real TTY.'' @ [CHR 0x0A])]
   \<and> \<not> tty_missing (e0\<lparr>term_known := False\<rparr>) \<and> \<not> term_known (e0\<lparr>term_known := False\<rparr>)
   \<and> main 0 (e0\<lparr>term_known := False\<rparr>) w0 =
        Some (Inr (1, emit (Stderr (initscr_message (e0\<lparr>term_known := False\<rparr>))) w0))
   \<and> trace (emit (Stderr (initscr_message (e0\<lparr>term_known := False\<rparr>))) w0) =
        [Stderr (''Error opening terminal: xterm.'' @ [CHR 0x0A])]
   \<and> \<not> tty_missing e0 \<and> term_known e0
   \<and> main 1 e0 (w0\<lparr>key_src := (\<lambda>n. 113)\<rparr>) =
        Some (Inr (0, shutdown (fst (startup e0 (w0\<lparr>key_src := (\<lambda>n. 113)\<rparr>)))
                    (snd (getch (snd (startup e0 (w0\<lparr>key_src := (\<lambda>n. 113)\<rparr>)))))))"
proof -
  have t: "tty_missing (e0\<lparr>term_var := Some ''dumb''\<rparr>)" "\<not> tty_missing e0" "term_known e0"
    by (simp_all add: tty_missing_def e0_def)
  have k: "\<not> tty_missing (e0\<lparr>term_known := False\<rparr>)" "\<not> term_known (e0\<lparr>term_known := False\<rparr>)"
    by (simp_all add: tty_missing_def e0_def)
  have m: "main 1 e0 (w0\<lparr>key_src := (\<lambda>n. 113)\<rparr>) =
        Some (Inr (0, shutdown (fst (startup e0 (w0\<lparr>key_src := (\<lambda>n. 113)\<rparr>)))
                    (snd (getch (snd (startup e0 (w0\<lparr>key_src := (\<lambda>n. 113)\<rparr>)))))))"
    by (simp add: main_def tty_missing_def e0_def w0_def run_defs split_beta)
  from tty_check_and_fault [where e = "e0\<lparr>term_var := Some ''dumb''\<rparr>" and fuel = 0 and w = w0,
      THEN conjunct1] t
  have d: "main 0 (e0\<lparr>term_var := Some ''dumb''\<rparr>) w0 = Some (Inr (1, emit (Stderr tty_message) w0))"
    by blast
  from tty_check_and_fault [where e = "e0\<lparr>term_known := False\<rparr>" and fuel = 0 and w = w0,
      THEN conjunct2, THEN conjunct1] k
  have i: "main 0 (e0\<lparr>term_known := False\<rparr>) w0 =
        Some (Inr (1, emit (Stderr (initscr_message (e0\<lparr>term_known := False\<rparr>))) w0))"
    by blast
  have tr: "trace (emit (Stderr tty_message) w0) =
      [Stderr (''Error: This program requires a real TTY.'' @ [CHR 0x0A])]"
    by (simp add: emit_def w0_def tty_message_def)
  have ti: "trace (emit (Stderr (initscr_message (e0\<lparr>term_known := False\<rparr>))) w0) =
        [Stderr (''Error opening terminal: xterm.'' @ [CHR 0x0A])]"
    by (simp add: emit_def w0_def initscr_message_def e0_def)
  from t(1) d tr k i ti t(2) t(3) m show ?thesis
    by (intro conjI)
qed

end
